theory Spec2Isabelle
  imports Main "HOL-Library.Multiset"
begin

section \<open>The \<open>when\<close> decorator of mobx-when (src/index.ts)\<close>

text \<open>
  The decorator keeps a module-level registry \<open>whenMap\<close> from target prototypes to
  dictionaries of \<open>WhenInformation\<close>, replaces the target's initializer and
  deinitializer by wrappers, and lets the wrappers subscribe to and unsubscribe from a
  MobX \<open>computed\<close> of the predicate.

  Conventions of the embedding:
  \<^item> prototypes, receivers (\<open>this\<close>) and user functions are opaque identities;
  \<^item> a user function (a decorated method, an original lifecycle hook) is opaque: applying
    it appends an \<open>Apply\<close> event to the trace and changes nothing else, and it returns
    normally;
  \<^item> a predicate reads the receiver and the observable world \<open>'w\<close>;
  \<^item> a method name is a string or a symbol (\<open>propertyName: string | symbol\<close>); the
    lifecycle hook names are strings;
  \<^item> a thrown error is \<open>Inl\<close>; a function that can throw after it has changed the
    state returns the state beside the result.
\<close>

subsection \<open>Data\<close>

type_synonym cls = nat
type_synonym inst = nat
type_synonym func = nat

datatype any = Num int | Str string

type_synonym 'w predicate = "inst \<Rightarrow> 'w \<Rightarrow> bool"

text \<open>\<open>type WhenInformation\<close>. The disposer is the \<open>Lambda\<close> returned by \<open>observe\<close>; it is
  identified by the subscription it cancels.\<close>

record 'w WhenInformation =
  predicate :: "'w predicate"
  disposer :: "nat option"
  originalFunction :: "func option"
  parameters :: "any list option"

text \<open>A property key of a JavaScript object: a string or a symbol.\<close>

datatype PropertyKey = Name string | Symbol nat

text \<open>\<open>type Dictionary<T>\<close>: an object literal \<open>{}\<close> used as a table, in creation order of
  its own keys. The source declares string keys and stores under \<open>propertyName as string\<close>
  (line 193), a cast that leaves a symbol a symbol.\<close>

type_synonym 'a Dictionary = "(PropertyKey \<times> 'a) list"

text \<open>\<open>interface IParams\<close>; an optional member is an option.\<close>

record 'w IParams =
  params_predicate :: "'w predicate"
  params_parameters :: "any list option"
  initFunctionName :: "string option"
  deinitFunctionName :: "string option"

text \<open>The first argument of \<open>when\<close>: the source tests
  \<open>typeof predicateOrParameters === 'function'\<close>.\<close>

datatype 'w predicateOrParameters = IsFunction "'w predicate" | IsParams "'w IParams"

text \<open>\<open>TypedPropertyDescriptor<Function>\<close>: only \<open>value\<close> is read.\<close>

record descriptor =
  descriptor_value :: "func option"

text \<open>What \<open>target[name]\<close> can hold when it is not \<open>undefined\<close>: a user function, one of the
  two closures that \<open>decorate\<close> installs (each captures \<open>target\<close> and the original it
  replaced), \<open>null\<close>, or some other value that cannot be called.\<close>

datatype jsval =
    Function func
  | InitWrapper cls jsval
  | DeinitWrapper cls jsval
  | Null
  | NotCallable

datatype error = NoInitializer | NoDeinitializer | TypeError

datatype event = Apply func inst "any list"

text \<open>A running observation: what the callback of lines 147-151 captured
  (\<open>originalFunction\<close>, \<open>this\<close>, \<open>parameters\<close>), the bound predicate, the last value of the
  computed, and whether the disposer has been called.\<close>

record 'w subscription =
  sub_predicate :: "'w predicate"
  sub_this :: inst
  sub_function :: "func option"
  sub_parameters :: "any list option"
  sub_value :: bool
  sub_disposed :: bool

text \<open>The module's \<open>whenMap\<close> (undefined until the first decoration); what \<open>target[name]\<close>
  gives for a string \<open>name\<close>, own or inherited; the observable state; the observations
  of the engine; the applications of user functions so far.\<close>

record 'w state =
  whenMap :: "(cls \<rightharpoonup> 'w WhenInformation Dictionary) option"
  props :: "cls \<Rightarrow> string \<rightharpoonup> jsval"
  world :: 'w
  subscriptions :: "'w subscription list"
  trace :: "event list"

subsection \<open>JavaScript objects used as dictionaries\<close>

text \<open>What an object inherits from \<open>Object.prototype\<close>: its methods (functions 100 to
  110) and the accessor \<open>__proto__\<close>, which gives an object. All keys are strings and none
  is enumerable.\<close>

definition inherited_properties :: "(string \<times> jsval) list" where
  "inherited_properties =
     [(''constructor'', Function 100), (''hasOwnProperty'', Function 101),
      (''isPrototypeOf'', Function 102), (''propertyIsEnumerable'', Function 103),
      (''toLocaleString'', Function 104), (''toString'', Function 105),
      (''valueOf'', Function 106), (''__proto__'', NotCallable),
      (''__defineGetter__'', Function 107), (''__defineSetter__'', Function 108),
      (''__lookupGetter__'', Function 109), (''__lookupSetter__'', Function 110)]"

definition object_prototype_keys :: "string list" where
  "object_prototype_keys = map fst inherited_properties"

text \<open>\<open>propertyName in dictionary\<close>: an own key, or a key that \<open>{}\<close> inherits.\<close>

definition has_property :: "PropertyKey \<Rightarrow> 'a Dictionary \<Rightarrow> bool" where
  "has_property k d \<longleftrightarrow>
     k \<in> set (map fst d) \<or>
     (case k of Name s \<Rightarrow> s \<in> set object_prototype_keys | Symbol n \<Rightarrow> False)"

text \<open>The string-keyed entries of a table; \<open>for ... in\<close> visits no symbol key.\<close>

fun string_keyed :: "'a Dictionary \<Rightarrow> (string \<times> 'a) list" where
  "string_keyed [] = []"
| "string_keyed ((Name s, i) # d) = (s, i) # string_keyed d"
| "string_keyed ((Symbol n, i) # d) = string_keyed d"

text \<open>An array index is a canonical decimal numeral below \<open>2^32 - 1\<close>.\<close>

definition index_value :: "string \<Rightarrow> nat" where
  "index_value s = foldl (\<lambda>n c. 10 * n + (of_char c - 48)) 0 s"

definition is_array_index :: "string \<Rightarrow> bool" where
  "is_array_index s \<longleftrightarrow>
     s \<noteq> [] \<and> list_all (\<lambda>c. c \<in> set ''0123456789'') s \<and>
     (s = ''0'' \<or> hd s \<noteq> CHR ''0'') \<and> index_value s \<le> 4294967294"

text \<open>\<open>for (const propertyKey in map)\<close>, with \<open>map[propertyKey]\<close> beside the key: the
  string keys only, array-index keys first in ascending order, then the other keys in
  creation order.\<close>

definition for_in :: "'a Dictionary \<Rightarrow> (string \<times> 'a) list" where
  "for_in d =
     sort_key (\<lambda>e. index_value (fst e)) (filter (\<lambda>e. is_array_index (fst e)) (string_keyed d)) @
     filter (\<lambda>e. \<not> is_array_index (fst e)) (string_keyed d)"

subsection \<open>The reactive engine\<close>

text \<open>The arguments that \<open>f.apply(this, parameters)\<close> passes: none when the array is
  undefined.\<close>

definition arguments :: "any list option \<Rightarrow> any list" where
  "arguments ps = (case ps of None \<Rightarrow> [] | Some a \<Rightarrow> a)"

text \<open>Where \<open>f?.apply(this, parameters)\<close> is written: nothing when \<open>f\<close> is undefined.\<close>

definition apply_optional :: "func option \<Rightarrow> inst \<Rightarrow> any list option \<Rightarrow> event list" where
  "apply_optional f this ps =
     (case f of None \<Rightarrow> [] | Some g \<Rightarrow> [Apply g this (arguments ps)])"

text \<open>The callback handed to \<open>observe\<close> (lines 147-151).\<close>

definition observer_callback :: "func option \<Rightarrow> inst \<Rightarrow> any list option \<Rightarrow> bool \<Rightarrow> event list" where
  "observer_callback f this ps newValue = (if newValue then apply_optional f this ps else [])"

text \<open>Modelled from the spec: the primitive of the external reactive engine (MobX, not
  part of this repository), \<open>computed(predicate.bind(this)).observe(callback)\<close>: it
  observes a derived boolean, invokes the callback with the new value on each change of
  that value, and returns a disposer; calling the disposer cancels the observation, and
  calling it again is a no-op. The four definitions \<open>observe\<close>, \<open>dispose\<close>, \<open>recompute\<close>
  and \<open>set_world\<close> are that primitive; \<open>notify\<close> is its call of the source's callback.\<close>

definition observe ::
  "'w predicate \<Rightarrow> inst \<Rightarrow> func option \<Rightarrow> any list option \<Rightarrow> 'w state \<Rightarrow> nat \<times> 'w state" where
  "observe p this f ps st =
     (length (subscriptions st),
      st\<lparr>subscriptions := subscriptions st @
           [\<lparr>sub_predicate = p, sub_this = this, sub_function = f, sub_parameters = ps,
             sub_value = p this (world st), sub_disposed = False\<rparr>]\<rparr>)"

text \<open>Modelled from the spec: calling the disposer of the observation \<open>d\<close>.\<close>

definition dispose :: "nat \<Rightarrow> 'w state \<Rightarrow> 'w state" where
  "dispose d st =
     (if d < length (subscriptions st)
      then st\<lparr>subscriptions := (subscriptions st)[d := (subscriptions st ! d)\<lparr>sub_disposed := True\<rparr>]\<rparr>
      else st)"

text \<open>Modelled from the spec: one observation when the world becomes \<open>w\<close>. A live
  observation records the new value of its computed; when that value differs from the
  last one, the callback is invoked with it.\<close>

definition recompute :: "'w \<Rightarrow> 'w subscription \<Rightarrow> 'w subscription" where
  "recompute w s =
     (if sub_disposed s then s else s\<lparr>sub_value := sub_predicate s (sub_this s) w\<rparr>)"

definition notify :: "'w \<Rightarrow> 'w subscription \<Rightarrow> event list" where
  "notify w s =
     (let newValue = sub_predicate s (sub_this s) w
      in if sub_disposed s \<or> newValue = sub_value s then []
         else observer_callback (sub_function s) (sub_this s) (sub_parameters s) newValue)"

text \<open>Modelled from the spec: the observable state changes to \<open>w\<close>, and every live
  observation whose computed value changed is notified.\<close>

definition set_world :: "'w \<Rightarrow> 'w state \<Rightarrow> 'w state" where
  "set_world w st =
     st\<lparr>world := w,
        subscriptions := map (recompute w) (subscriptions st),
        trace := trace st @ concat (map (notify w) (subscriptions st))\<rparr>"

subsection \<open>The lifecycle wrappers\<close>

text \<open>\<open>map[propertyKey].disposer = ...\<close> on the dictionary of \<open>target\<close>.\<close>

definition set_disposer :: "cls \<Rightarrow> string \<Rightarrow> nat \<Rightarrow> 'w state \<Rightarrow> 'w state" where
  "set_disposer target propertyKey d st =
     st\<lparr>whenMap := map_option
          (\<lambda>m. case m target of None \<Rightarrow> m
               | Some dict \<Rightarrow>
                   m(target \<mapsto> map (\<lambda>(k, i). if k = Name propertyKey then (k, i\<lparr>disposer := Some d\<rparr>)
                                            else (k, i)) dict))
          (whenMap st)\<rparr>"

text \<open>One iteration of the loop of the initializer wrapper (lines 145-155).\<close>

definition activate :: "cls \<Rightarrow> inst \<Rightarrow> 'w state \<Rightarrow> string \<times> 'w WhenInformation \<Rightarrow> 'w state" where
  "activate target this st e =
     (let propertyKey = fst e; info = snd e;
          (d, st1) = observe (predicate info) this (originalFunction info) (parameters info) st;
          st2 = set_disposer target propertyKey d st1
      in if predicate info this (world st2)
         then st2\<lparr>trace := trace st2 @ apply_optional (originalFunction info) this (parameters info)\<rparr>
         else st2)"

text \<open>The initializer wrapper after the call of the original (lines 142-156).\<close>

definition init_body :: "cls \<Rightarrow> inst \<Rightarrow> 'w state \<Rightarrow> (error + unit) \<times> 'w state" where
  "init_body target this st =
     (case whenMap st of
        None \<Rightarrow> (Inl TypeError, st)
      | Some wm \<Rightarrow>
          (case wm target of
             None \<Rightarrow> (Inr (), st)
           | Some m \<Rightarrow> (Inr (), foldl (activate target this) st (for_in m))))"

text \<open>One iteration of the loop of the deinitializer wrapper (lines 173-174).\<close>

definition deactivate :: "'w state \<Rightarrow> string \<times> 'w WhenInformation \<Rightarrow> 'w state" where
  "deactivate st e = (case disposer (snd e) of None \<Rightarrow> st | Some d \<Rightarrow> dispose d st)"

text \<open>The deinitializer wrapper after the call of the original (lines 169-175).\<close>

definition deinit_body :: "cls \<Rightarrow> 'w state \<Rightarrow> (error + unit) \<times> 'w state" where
  "deinit_body target st =
     (case whenMap st of
        None \<Rightarrow> (Inl TypeError, st)
      | Some wm \<Rightarrow>
          (case wm target of
             None \<Rightarrow> (Inr (), st)
           | Some dict \<Rightarrow> (Inr (), foldl deactivate st (for_in dict))))"

text \<open>Calling a value as a method of \<open>this\<close>. The wrappers call the original through
  \<open>original?.apply(this, params)\<close>, which skips \<open>null\<close> and throws on any other value that
  is not a function.\<close>

fun apply_value :: "jsval \<Rightarrow> inst \<Rightarrow> any list \<Rightarrow> 'w state \<Rightarrow> (error + unit) \<times> 'w state" where
  "apply_value (Function f) this args st = (Inr (), st\<lparr>trace := trace st @ [Apply f this args]\<rparr>)"
| "apply_value (InitWrapper target originalInitializer) this args st =
     (case (if originalInitializer = Null then (Inr (), st)
            else apply_value originalInitializer this args st) of
        (Inl e, st1) \<Rightarrow> (Inl e, st1)
      | (Inr u, st1) \<Rightarrow> init_body target this st1)"
| "apply_value (DeinitWrapper target originalDeinitializer) this args st =
     (case (if originalDeinitializer = Null then (Inr (), st)
            else apply_value originalDeinitializer this args st) of
        (Inl e, st1) \<Rightarrow> (Inl e, st1)
      | (Inr u, st1) \<Rightarrow> deinit_body target st1)"
| "apply_value Null this args st = (Inl TypeError, st)"
| "apply_value NotCallable this args st = (Inl TypeError, st)"

subsection \<open>The decorator\<close>

text \<open>\<open>Object.defineProperty(target, name, { configurable: true, value })\<close>.\<close>

definition define_property :: "cls \<Rightarrow> string \<Rightarrow> jsval \<Rightarrow> 'w state \<Rightarrow> 'w state" where
  "define_property target name v st = st\<lparr>props := (props st)(target := (props st target)(name \<mapsto> v))\<rparr>"

text \<open>The registry after \<open>if (!whenMap) { whenMap = new WeakMap() }\<close>.\<close>

definition registry :: "'w state \<Rightarrow> cls \<rightharpoonup> 'w WhenInformation Dictionary" where
  "registry st = (case whenMap st of None \<Rightarrow> Map.empty | Some wm \<Rightarrow> wm)"

text \<open>\<open>decorate\<close> (lines 124-200), a closure over the four values that \<open>when\<close> destructures
  from its parameters.\<close>

definition decorate ::
  "'w predicate \<Rightarrow> any list option \<Rightarrow> string \<Rightarrow> string \<Rightarrow>
   cls \<Rightarrow> PropertyKey \<Rightarrow> descriptor \<Rightarrow> 'w state \<Rightarrow> (error + descriptor) \<times> 'w state" where
  "decorate pred funcParams initName deinitName target propertyName descr st =
     (let st0 = st\<lparr>whenMap := Some (registry st)\<rparr>;
          record_binding = (\<lambda>dictionary s.
            if has_property propertyName dictionary then (Inr descr, s)
            else (Inr descr,
                  s\<lparr>whenMap := Some ((registry s)(target \<mapsto> dictionary @
                      [(propertyName,
                        \<lparr>predicate = pred, disposer = None,
                         originalFunction = descriptor_value descr,
                         parameters = funcParams\<rparr>)]))\<rparr>))
      in case registry st0 target of
           None \<Rightarrow>
             (let st1 = st0\<lparr>whenMap := Some ((registry st0)(target \<mapsto> []))\<rparr>;
                  originalInitializer = props st1 target initName;
                  originalDeinitializer = props st1 target deinitName
              in case originalInitializer of
                   None \<Rightarrow> (Inl NoInitializer, st1)
                 | Some oi \<Rightarrow>
                     (let st2 = define_property target initName (InitWrapper target oi) st1
                      in case originalDeinitializer of
                           None \<Rightarrow> (Inl NoDeinitializer, st2)
                         | Some od \<Rightarrow>
                             record_binding []
                               (define_property target deinitName (DeinitWrapper target od) st2)))
         | Some dictionary \<Rightarrow> record_binding dictionary st0)"

text \<open>\<open>when\<close> (lines 103-201). First \<open>params\<close> (lines 104-115): the two call shapes.\<close>

definition resolve_params :: "'w predicateOrParameters \<Rightarrow> any list \<Rightarrow> 'w IParams" where
  "resolve_params pop rest =
     (case pop of
        IsFunction p \<Rightarrow>
          \<lparr>params_predicate = p, params_parameters = Some rest,
           initFunctionName = Some ''componentDidMount'',
           deinitFunctionName = Some ''componentWillUnmount''\<rparr>
      | IsParams ps \<Rightarrow> ps)"

text \<open>The destructuring with its defaults (lines 117-122).\<close>

definition init_name :: "'w IParams \<Rightarrow> string" where
  "init_name params = (case initFunctionName params of None \<Rightarrow> ''componentDidMount'' | Some n \<Rightarrow> n)"

definition deinit_name :: "'w IParams \<Rightarrow> string" where
  "deinit_name params =
     (case deinitFunctionName params of None \<Rightarrow> ''componentWillUnmount'' | Some n \<Rightarrow> n)"

definition when' ::
  "'w predicateOrParameters \<Rightarrow> any list \<Rightarrow>
   cls \<Rightarrow> PropertyKey \<Rightarrow> descriptor \<Rightarrow> 'w state \<Rightarrow> (error + descriptor) \<times> 'w state" where
  "when' pop rest =
     (let params = resolve_params pop rest
      in decorate (params_predicate params) (params_parameters params)
           (init_name params) (deinit_name params))"

subsection \<open>Running a program against the decorated classes\<close>

text \<open>\<open>receiver.name(...args)\<close> on an instance whose prototype is \<open>target\<close>.\<close>

definition call_method :: "cls \<Rightarrow> string \<Rightarrow> inst \<Rightarrow> any list \<Rightarrow> 'w state \<Rightarrow> (error + unit) \<times> 'w state" where
  "call_method target name this args st =
     (case props st target name of
        None \<Rightarrow> (Inl TypeError, st)
      | Some v \<Rightarrow> apply_value v this args st)"

datatype 'w action = Call cls string inst "any list" | SetWorld 'w

fun step :: "'w action \<Rightarrow> 'w state \<Rightarrow> (error + unit) \<times> 'w state" where
  "step (Call target name this args) st = call_method target name this args st"
| "step (SetWorld w) st = (Inr (), set_world w st)"

text \<open>A sequence of actions stops at the first one that throws.\<close>

fun run :: "'w action list \<Rightarrow> 'w state \<Rightarrow> (error + unit) \<times> 'w state" where
  "run [] st = (Inr (), st)"
| "run (a # as) st =
     (case step a st of
        (Inl e, st1) \<Rightarrow> (Inl e, st1)
      | (Inr u, st1) \<Rightarrow> run as st1)"

text \<open>One use of the decorator, \<open>@when(...)\<close> on the method \<open>dec_name\<close> of \<open>dec_target\<close>, and
  a sequence of uses; a use that throws keeps the state it reached.\<close>

record 'w decoration =
  dec_arg :: "'w predicateOrParameters"
  dec_rest :: "any list"
  dec_target :: cls
  dec_name :: PropertyKey
  dec_descriptor :: descriptor

definition decorate_one :: "'w decoration \<Rightarrow> 'w state \<Rightarrow> (error + descriptor) \<times> 'w state" where
  "decorate_one d = when' (dec_arg d) (dec_rest d) (dec_target d) (dec_name d) (dec_descriptor d)"

definition decorate_all :: "'w decoration list \<Rightarrow> 'w state \<Rightarrow> 'w state" where
  "decorate_all ds st = foldl (\<lambda>s d. snd (decorate_one d s)) st ds"

subsection \<open>Vocabulary of the properties\<close>

text \<open>The number of false-to-true steps in a sequence of predicate values.\<close>

fun rising_edges :: "bool list \<Rightarrow> nat" where
  "rising_edges (a # b # bs) = (if \<not> a \<and> b then 1 else 0) + rising_edges (b # bs)"
| "rising_edges bs = 0"

text \<open>What the observations \<open>subs\<close> append to the trace while the world runs through \<open>ws\<close>.\<close>

fun notifications :: "'w list \<Rightarrow> 'w subscription list \<Rightarrow> event list" where
  "notifications [] subs = []"
| "notifications (w # ws) subs =
     concat (map (notify w) subs) @ notifications ws (map (recompute w) subs)"

text \<open>The subscription that one iteration of the initializer wrapper starts.\<close>

definition started :: "inst \<Rightarrow> 'w \<Rightarrow> string \<times> 'w WhenInformation \<Rightarrow> 'w subscription" where
  "started this w e =
     \<lparr>sub_predicate = predicate (snd e), sub_this = this,
      sub_function = originalFunction (snd e), sub_parameters = parameters (snd e),
      sub_value = predicate (snd e) this w, sub_disposed = False\<rparr>"

text \<open>What one iteration of the initializer wrapper applies at once (lines 153-155).\<close>

definition immediate :: "inst \<Rightarrow> 'w \<Rightarrow> string \<times> 'w WhenInformation \<Rightarrow> event list" where
  "immediate this w e =
     (if predicate (snd e) this w
      then apply_optional (originalFunction (snd e)) this (parameters (snd e)) else [])"

text \<open>How often the observation \<open>s\<close> appends the event \<open>ev\<close> while the world runs through
  \<open>ws\<close>.\<close>

definition fires :: "event \<Rightarrow> 'w list \<Rightarrow> 'w subscription \<Rightarrow> nat" where
  "fires ev ws s =
     (if \<not> sub_disposed s \<and> apply_optional (sub_function s) (sub_this s) (sub_parameters s) = [ev]
      then rising_edges (sub_value s # map (sub_predicate s (sub_this s)) ws) else 0)"

subsection \<open>A component class\<close>

text \<open>The scenario of the specification: a class (prototype 0) with the two React hooks
  (functions 1 and 2), a method \<open>m\<close> (function 7), a method \<open>n\<close> (function 8), a method
  under the symbol 0 (function 9), and what it inherits from \<open>Object.prototype\<close>.
  Instances are 10 and 11.\<close>

definition component :: "bool state" where
  "component =
     \<lparr>whenMap = None,
      props = (\<lambda>c. Map.empty)
        (0 := (map_of inherited_properties)
           (''componentDidMount'' \<mapsto> Function 1, ''componentWillUnmount'' \<mapsto> Function 2,
            ''m'' \<mapsto> Function 7, ''n'' \<mapsto> Function 8)),
      world = False, subscriptions = [], trace = []\<rparr>"

text \<open>A predicate that reads an observable boolean.\<close>

definition logged_in :: "bool predicate" where
  "logged_in this w = w"

text \<open>The class after \<open>@when(logged_in, 1, 2)\<close> on \<open>m\<close>.\<close>

definition decorated :: "bool state" where
  "decorated =
     snd (when' (IsFunction logged_in) [Num 1, Num 2] 0 (Name ''m'') \<lparr>descriptor_value = Some 7\<rparr>
            component)"

text \<open>The class after \<open>@when(logged_in, 1, 2)\<close> on the method under the symbol 0.\<close>

definition symbol_decorated :: "bool state" where
  "symbol_decorated =
     snd (when' (IsFunction logged_in) [Num 1, Num 2] 0 (Symbol 0) \<lparr>descriptor_value = Some 9\<rparr>
            component)"

text \<open>A class (prototype 1) that has the initializer hook, the methods \<open>m\<close> and \<open>n\<close>, and
  no deinitializer hook.\<close>

definition half_component :: "bool state" where
  "half_component =
     \<lparr>whenMap = None,
      props = (\<lambda>c. Map.empty)
        (1 := (map_of inherited_properties)
           (''componentDidMount'' \<mapsto> Function 1, ''m'' \<mapsto> Function 7, ''n'' \<mapsto> Function 8)),
      world = False, subscriptions = [], trace = []\<rparr>"

text \<open>That class after \<open>@when(logged_in)\<close> on \<open>m\<close>, which throws, and then after
  \<open>@when(logged_in)\<close> on \<open>n\<close>.\<close>

definition half_failed :: "bool state" where
  "half_failed =
     snd (when' (IsFunction logged_in) [] 1 (Name ''m'') \<lparr>descriptor_value = Some 7\<rparr>
            half_component)"

definition half_decorated :: "bool state" where
  "half_decorated =
     snd (when' (IsFunction logged_in) [] 1 (Name ''n'') \<lparr>descriptor_value = Some 8\<rparr> half_failed)"

section \<open>Facts about the model\<close>

subsection \<open>Enumeration, counting, the engine and the wrappers\<close>

lemma string_keyed_mem: "(s, i) \<in> set (string_keyed d) \<longleftrightarrow> (Name s, i) \<in> set d"
  by (induction d rule: string_keyed.induct) auto

lemma filter_string_keyed:
  "filter (\<lambda>e. Q (snd e)) (string_keyed d) = string_keyed (filter (\<lambda>e. Q (snd e)) d)"
  by (induction d rule: string_keyed.induct) auto

lemma string_keyed_update:
  "string_keyed (map (\<lambda>(k', i). if k' = Name k then (k', f i) else (k', i)) d) =
     map (\<lambda>(s, i). if s = k then (s, f i) else (s, i)) (string_keyed d)"
  by (induction d rule: string_keyed.induct) auto

lemma distinct_string_keyed: "distinct (map fst d) \<Longrightarrow> distinct (map fst (string_keyed d))"
proof (induction d rule: string_keyed.induct)
  case (2 s i d)
  have "s \<notin> fst ` set (string_keyed d)"
  proof
    assume "s \<in> fst ` set (string_keyed d)"
    then obtain j where "(s, j) \<in> set (string_keyed d)" by auto
    then have "(Name s, j) \<in> set d" by (simp add: string_keyed_mem)
    then have "Name s \<in> fst ` set d" by (metis fst_conv imageI)
    with "2.prems" show False by simp
  qed
  with 2 show ?case by simp
qed simp_all

lemma mset_for_in: "mset (for_in d) = mset (string_keyed d)"
  by (simp add: for_in_def)

lemma set_for_in: "set (for_in d) = set (string_keyed d)"
  by (metis mset_for_in set_mset_mset)

lemma sum_list_for_in:
  "sum_list (map f (for_in d)) = sum_list (map (f :: _ \<Rightarrow> nat) (string_keyed d))"
  by (metis mset_for_in mset_map sum_mset_sum_list)

lemma count_list_concat: "count_list (concat xss) x = sum_list (map (\<lambda>xs. count_list xs x) xss)"
  by (induction xss) simp_all

lemma sum_list_filter_zero:
  "(\<And>x. x \<in> set xs \<Longrightarrow> \<not> P x \<Longrightarrow> f x = (0::nat)) \<Longrightarrow> sum_list (map f xs) = sum_list (map f (filter P xs))"
  by (induction xs) simp_all

lemma activate_world: "world (activate t this st e) = world st"
  by (simp add: activate_def observe_def set_disposer_def Let_def)

lemma activate_props: "props (activate t this st e) = props st"
  by (simp add: activate_def observe_def set_disposer_def Let_def)

lemma activate_subscriptions:
  "subscriptions (activate t this st e) = subscriptions st @ [started this (world st) e]"
  by (simp add: activate_def observe_def set_disposer_def Let_def started_def)

lemma activate_trace:
  "trace (activate t this st e) = trace st @ immediate this (world st) e"
  by (simp add: activate_def observe_def set_disposer_def Let_def immediate_def)

lemma activate_whenMap:
  "whenMap (activate t this st e) = whenMap (set_disposer t (fst e) (length (subscriptions st)) st)"
  by (simp add: activate_def observe_def set_disposer_def Let_def)

lemma foldl_activate_world: "world (foldl (activate t this) st es) = world st"
  by (induction es arbitrary: st) (simp_all add: activate_world)

lemma foldl_activate_props: "props (foldl (activate t this) st es) = props st"
  by (induction es arbitrary: st) (simp_all add: activate_props)

lemma foldl_activate_subscriptions:
  "subscriptions (foldl (activate t this) st es) = subscriptions st @ map (started this (world st)) es"
  by (induction es arbitrary: st) (simp_all add: activate_subscriptions activate_world)

lemma foldl_activate_trace:
  "trace (foldl (activate t this) st es) = trace st @ concat (map (immediate this (world st)) es)"
  by (induction es arbitrary: st) (simp_all add: activate_trace activate_world)

lemma run_SetWorld: "run (map SetWorld ws) st = (Inr (), foldl (\<lambda>s w. set_world w s) st ws)"
  by (induction ws arbitrary: st) simp_all

lemma foldl_set_world_trace:
  "trace (foldl (\<lambda>s w. set_world w s) st ws) = trace st @ notifications ws (subscriptions st)"
  by (induction ws arbitrary: st) (simp_all add: set_world_def)

lemma fires_step: "count_list (notify w s) ev + fires ev ws (recompute w s) = fires ev (w # ws) s"
  by (auto simp: fires_def notify_def recompute_def observer_callback_def apply_optional_def Let_def split: option.splits)

lemma fires_Nil: "fires ev [] s = 0"
  by (simp add: fires_def)

lemma count_notifications:
  "count_list (notifications ws subs) ev = sum_list (map (fires ev ws) subs)"
proof (induction ws arbitrary: subs)
  case Nil
  show ?case by (simp add: fires_Nil)
next
  case (Cons w ws)
  have "count_list (notifications (w # ws) subs) ev =
        sum_list (map (\<lambda>s. count_list (notify w s) ev) subs) + sum_list (map (fires ev ws) (map (recompute w) subs))"
    by (simp add: count_list_concat Cons.IH o_def)
  also have "\<dots> = sum_list (map (\<lambda>s. count_list (notify w s) ev + fires ev ws (recompute w s)) subs)"
    by (simp add: sum_list_addf o_def)
  also have "\<dots> = sum_list (map (fires ev (w # ws)) subs)"
    by (simp add: fires_step)
  finally show ?case .
qed


lemma apply_init_wrapper:
  "apply_value (InitWrapper t (Function g)) this args st =
     init_body t this (st\<lparr>trace := trace st @ [Apply g this args]\<rparr>)"
  by simp

lemma apply_deinit_wrapper:
  "apply_value (DeinitWrapper t (Function g)) this args st =
     deinit_body t (st\<lparr>trace := trace st @ [Apply g this args]\<rparr>)"
  by simp

lemma call_init_wrapper:
  assumes "whenMap st = Some wm" and "wm t = Some d"
    and "props st t name = Some (InitWrapper t (Function g))"
  shows "call_method t name this args st =
     (Inr (), foldl (activate t this) (st\<lparr>trace := trace st @ [Apply g this args]\<rparr>) (for_in d))"
  using assms by (simp add: call_method_def init_body_def)

lemma fires_started:
  "fires ev ws (started this w e) =
     (if apply_optional (originalFunction (snd e)) this (parameters (snd e)) = [ev]
      then rising_edges (map (predicate (snd e) this) (w # ws)) else 0)"
  by (simp add: fires_def started_def)

lemmas decoration_defs =
  when'_def resolve_params_def init_name_def deinit_name_def decorate_def registry_def
  define_property_def has_property_def object_prototype_keys_def inherited_properties_def

lemma decorated_whenMap:
  "whenMap decorated = Some [0 \<mapsto> [(Name ''m'', \<lparr>predicate = logged_in, disposer = None,
      originalFunction = Some 7, parameters = Some [Num 1, Num 2]\<rparr>)]]"
  by (simp add: decorated_def component_def decoration_defs)

lemma decorated_props:
  "props decorated 0 ''componentDidMount'' = Some (InitWrapper 0 (Function 1))"
  "props decorated 0 ''componentWillUnmount'' = Some (DeinitWrapper 0 (Function 2))"
  by (simp_all add: decorated_def component_def decoration_defs)

lemma decorated_rest:
  "world decorated = False" "subscriptions decorated = []" "trace decorated = []"
  by (simp_all add: decorated_def component_def decoration_defs)

subsection \<open>The decorator\<close>

lemma registry_Some: "registry st t = Some d \<Longrightarrow> st\<lparr>whenMap := Some (registry st)\<rparr> = st"
  by (cases "whenMap st") (simp_all add: registry_def)

lemma decorate_registered:
  assumes "registry st t = Some d"
  shows "decorate p fp a b t k descr st =
     (Inr descr,
      if has_property k d then st
      else st\<lparr>whenMap := Some ((registry st)(t \<mapsto> d @
             [(k, \<lparr>predicate = p, disposer = None, originalFunction = descriptor_value descr,
                   parameters = fp\<rparr>)]))\<rparr>)"
  using assms registry_Some [OF assms]
  by (simp add: decorate_def Let_def registry_def)

lemma decorate_fresh:
  fixes st :: "'w state"
  assumes "registry st t = None"
  shows "decorate p fp a b t k descr st =
     (case props st t a of
        None \<Rightarrow> (Inl NoInitializer, st\<lparr>whenMap := Some ((registry st)(t \<mapsto> []))\<rparr>)
      | Some oi \<Rightarrow>
          (case props st t b of
             None \<Rightarrow> (Inl NoDeinitializer,
                       st\<lparr>whenMap := Some ((registry st)(t \<mapsto> [])),
                          props := (props st)(t := (props st t)(a \<mapsto> InitWrapper t oi))\<rparr>)
           | Some od \<Rightarrow>
               (Inr descr,
                st\<lparr>whenMap := Some ((registry st)(t \<mapsto>
                       (if has_property k ([] :: 'w WhenInformation Dictionary) then []
                        else [(k, \<lparr>predicate = p, disposer = None,
                                    originalFunction = descriptor_value descr, parameters = fp\<rparr>)]))),
                   props := (props st)(t := (props st t)(a \<mapsto> InitWrapper t oi,
                                                       b \<mapsto> DeinitWrapper t od))\<rparr>)))"
  using assms
  by (auto simp: decorate_def Let_def registry_def define_property_def split: option.splits)

lemma decorate_registry_target: "registry (snd (decorate p fp a b t k descr st)) t \<noteq> None"
proof (cases "registry st t")
  case None
  then show ?thesis
    by (simp add: decorate_fresh registry_def split: option.splits)
next
  case (Some d)
  then show ?thesis
    by (simp add: decorate_registered registry_def)
qed

lemma decorate_registry_other:
  "t' \<noteq> t \<Longrightarrow> registry (snd (decorate p fp a b t k descr st)) t' = registry st t'"
proof (cases "registry st t")
  case None
  assume "t' \<noteq> t"
  with None show ?thesis
    by (simp add: decorate_fresh registry_def split: option.splits)
next
  case (Some d)
  assume "t' \<noteq> t"
  with Some show ?thesis
    by (simp add: decorate_registered registry_def)
qed

lemma decorate_props_other:
  "t' \<noteq> t \<Longrightarrow> props (snd (decorate p fp a b t k descr st)) t' = props st t'"
proof (cases "registry st t")
  case None
  assume "t' \<noteq> t"
  with None show ?thesis
    by (simp add: decorate_fresh split: option.splits)
next
  case (Some d)
  then show ?thesis
    by (simp add: decorate_registered)
qed

lemma decorate_props_registered:
  "registry st t = Some d \<Longrightarrow> props (snd (decorate p fp a b t k descr st)) = props st"
  by (simp add: decorate_registered)

lemma decorate_one_keeps:
  assumes "registry st t = Some d"
  shows "props (snd (decorate_one x st)) t = props st t \<and> registry (snd (decorate_one x st)) t \<noteq> None"
proof (cases "dec_target x = t")
  case True
  with assms show ?thesis
    by (simp add: decorate_one_def when'_def Let_def decorate_props_registered decorate_registry_target)
next
  case False
  then have "t \<noteq> dec_target x" by simp
  with assms show ?thesis
    by (simp add: decorate_one_def when'_def Let_def decorate_props_other decorate_registry_other)
qed

lemma decorate_all_keeps:
  "registry st t = Some d \<Longrightarrow>
   props (decorate_all ds st) t = props st t \<and> registry (decorate_all ds st) t \<noteq> None"
proof (induction ds arbitrary: st d)
  case Nil
  then show ?case by (simp add: decorate_all_def)
next
  case (Cons x ds)
  from decorate_one_keeps [OF Cons.prems, of x]
  obtain d' where d': "registry (snd (decorate_one x st)) t = Some d'"
    and p: "props (snd (decorate_one x st)) t = props st t"
    by auto
  from Cons.IH [OF d'] p show ?case
    by (simp add: decorate_all_def)
qed

lemma decorated_props_start: "props decorated 0 ''start'' = None"
  by (simp add: decorated_def component_def decoration_defs)

subsection \<open>Decorating a method twice\<close>

lemma first_decoration_registers:
  assumes "registry st t = Some d" and "\<not> has_property k d"
  shows "registry (snd (decorate p fp a b t k descr st)) t =
           Some (d @ [(k, \<lparr>predicate = p, disposer = None,
                           originalFunction = descriptor_value descr, parameters = fp\<rparr>)])"
  using assms by (simp add: decorate_registered registry_def)

lemma has_property_append: "has_property k (d @ [(k, i)])"
  by (simp add: has_property_def)

lemma redecoration_is_noop:
  fixes st :: "'w state"
  assumes "fst (decorate p fp a b t k descr st) = Inr r"
  shows "decorate p' fp' a' b' t k descr' (snd (decorate p fp a b t k descr st)) =
           (Inr descr', snd (decorate p fp a b t k descr st))"
proof (cases "registry st t")
  case None
  let ?e = "(k, \<lparr>predicate = p, disposer = None, originalFunction = descriptor_value descr,
                 parameters = fp\<rparr>)"
  let ?d = "if has_property k ([] :: 'w WhenInformation Dictionary) then [] else [?e]"
  from None assms obtain oi od where o: "props st t a = Some oi" "props st t b = Some od"
    by (auto simp: decorate_fresh split: option.splits)
  have r: "registry (snd (decorate p fp a b t k descr st)) t = Some ?d"
    using None o by (simp add: decorate_fresh registry_def)
  have "has_property k ?d"
    by (simp add: has_property_def)
  with decorate_registered [OF r] show ?thesis
    by simp
next
  case (Some d)
  show ?thesis
  proof (cases "has_property k d")
    case True
    with Some show ?thesis
      by (simp add: decorate_registered)
  next
    case False
    from first_decoration_registers [OF Some False]
    have r: "registry (snd (decorate p fp a b t k descr st)) t =
           Some (d @ [(k, \<lparr>predicate = p, disposer = None,
                           originalFunction = descriptor_value descr, parameters = fp\<rparr>)])" .
    from decorate_registered [OF r] show ?thesis
      by (simp add: has_property_append)
  qed
qed

subsection \<open>What a run leaves unchanged\<close>

lemma dispose_simps:
  "props (dispose n st) = props st" "whenMap (dispose n st) = whenMap st"
  "trace (dispose n st) = trace st" "world (dispose n st) = world st"
  by (simp_all add: dispose_def)

lemma deactivate_simps:
  "props (deactivate st e) = props st" "whenMap (deactivate st e) = whenMap st"
  "trace (deactivate st e) = trace st" "world (deactivate st e) = world st"
  by (simp_all add: deactivate_def dispose_simps split: option.splits)

lemma foldl_deactivate_simps:
  "props (foldl deactivate st es) = props st" "whenMap (foldl deactivate st es) = whenMap st"
  "trace (foldl deactivate st es) = trace st" "world (foldl deactivate st es) = world st"
  by (induction es arbitrary: st) (simp_all add: deactivate_simps)

lemma activate_whenMap_defined:
  "whenMap st = Some wm \<Longrightarrow> \<exists>wm'. whenMap (activate t this st e) = Some wm'"
  by (simp add: activate_whenMap set_disposer_def)

lemma foldl_activate_whenMap_defined:
  "whenMap st = Some wm \<Longrightarrow> \<exists>wm'. whenMap (foldl (activate t this) st es) = Some wm'"
proof (induction es arbitrary: st wm)
  case Nil
  then show ?case by simp
next
  case (Cons e es)
  from activate_whenMap_defined [OF Cons.prems]
  obtain wm1 where "whenMap (activate t this st e) = Some wm1" by blast
  from Cons.IH [OF this] show ?case by simp
qed

lemma init_body_props: "props (snd (init_body t this st)) = props st"
  by (simp add: init_body_def foldl_activate_props split: option.splits)

lemma deinit_body_props: "props (snd (deinit_body t st)) = props st"
  by (simp add: deinit_body_def foldl_deactivate_simps split: option.splits)

lemma init_body_whenMap_defined:
  assumes "whenMap st = Some wm"
  shows "\<exists>wm'. whenMap (snd (init_body t this st)) = Some wm'"
proof (cases "wm t")
  case None
  with assms show ?thesis by (simp add: init_body_def)
next
  case (Some d)
  with assms foldl_activate_whenMap_defined [OF assms, of t this "for_in d"] show ?thesis
    by (simp add: init_body_def)
qed

lemma deinit_body_whenMap: "whenMap (snd (deinit_body t st)) = whenMap st"
  by (simp add: deinit_body_def foldl_deactivate_simps split: option.splits)

lemma apply_value_props: "props (snd (apply_value v this args st)) = props st"
proof (induction v arbitrary: st)
  case (InitWrapper t v)
  have "props (snd (apply_value v this args st)) = props st"
    by (rule InitWrapper.IH)
  then show ?case
    by (cases "apply_value v this args st") (auto simp: init_body_props split: sum.splits)
next
  case (DeinitWrapper t v)
  have "props (snd (apply_value v this args st)) = props st"
    by (rule DeinitWrapper.IH)
  then show ?case
    by (cases "apply_value v this args st") (auto simp: deinit_body_props split: sum.splits)
qed simp_all

lemma apply_value_whenMap_defined:
  "whenMap st = Some wm \<Longrightarrow> \<exists>wm'. whenMap (snd (apply_value v this args st)) = Some wm'"
proof (induction v arbitrary: st wm)
  case (InitWrapper t v)
  from InitWrapper.IH [OF InitWrapper.prems]
  obtain wm1 where w1: "whenMap (snd (apply_value v this args st)) = Some wm1" by blast
  show ?case
  proof (cases "apply_value v this args st")
    case (Pair r st1)
    with w1 have "whenMap st1 = Some wm1" by simp
    with Pair InitWrapper.prems
      init_body_whenMap_defined [of st1 wm1 t this] init_body_whenMap_defined [OF InitWrapper.prems, of t this]
    show ?thesis
      by (auto split: sum.splits)
  qed
next
  case (DeinitWrapper t v)
  from DeinitWrapper.IH [OF DeinitWrapper.prems]
  obtain wm1 where w1: "whenMap (snd (apply_value v this args st)) = Some wm1" by blast
  show ?case
  proof (cases "apply_value v this args st")
    case (Pair r st1)
    with w1 have "whenMap st1 = Some wm1" by simp
    with Pair DeinitWrapper.prems show ?thesis
      by (auto simp: deinit_body_whenMap split: sum.splits)
  qed
qed simp_all

lemma step_props: "props (snd (step x st)) = props st"
  by (cases x) (simp_all add: call_method_def apply_value_props set_world_def split: option.splits)

lemma step_whenMap_defined:
  "whenMap st = Some wm \<Longrightarrow> \<exists>wm'. whenMap (snd (step x st)) = Some wm'"
  by (cases x)
     (simp_all add: call_method_def apply_value_whenMap_defined set_world_def split: option.splits)

lemma run_props: "props (snd (run xs st)) = props st"
proof (induction xs arbitrary: st)
  case Nil
  show ?case by simp
next
  case (Cons x xs)
  show ?case
  proof (cases "step x st")
    case (Pair r st1)
    with step_props [of x st] have "props st1 = props st" by simp
    with Pair Cons.IH [of st1] show ?thesis
      by (auto split: sum.splits)
  qed
qed

lemma run_whenMap_defined:
  "whenMap st = Some wm \<Longrightarrow> \<exists>wm'. whenMap (snd (run xs st)) = Some wm'"
proof (induction xs arbitrary: st wm)
  case Nil
  then show ?case by simp
next
  case (Cons x xs)
  show ?case
  proof (cases "step x st")
    case (Pair r st1)
    with step_whenMap_defined [OF Cons.prems, of x]
    obtain wm1 where "whenMap st1 = Some wm1" by auto
    with Pair Cons.IH [of st1 wm1] show ?thesis
      by (auto split: sum.splits)
  qed
qed

lemma registry_whenMap_defined: "registry st t = Some d \<Longrightarrow> \<exists>wm. whenMap st = Some wm"
  by (auto simp: registry_def split: option.splits)

lemma init_body_runs:
  "whenMap st = Some wm \<Longrightarrow>
   \<exists>st' evs. init_body t this st = (Inr (), st') \<and> trace st' = trace st @ evs"
  by (auto simp: init_body_def foldl_activate_trace split: option.splits)

lemma deinit_body_runs:
  "whenMap st = Some wm \<Longrightarrow> \<exists>st'. deinit_body t st = (Inr (), st') \<and> trace st' = trace st"
  by (auto simp: deinit_body_def foldl_deactivate_simps split: option.splits)

lemma decorated_decorate:
  "decorated = snd (decorate logged_in (Some [Num 1, Num 2]) ''componentDidMount''
     ''componentWillUnmount'' 0 (Name ''m'') \<lparr>descriptor_value = Some 7\<rparr> component)"
  by (simp add: decorated_def when'_def resolve_params_def init_name_def deinit_name_def)

lemma component_simps:
  "registry component 0 = None"
  "props component 0 ''componentDidMount'' = Some (Function 1)"
  "props component 0 ''componentWillUnmount'' = Some (Function 2)"
  by (simp_all add: component_def registry_def)

subsection \<open>The disposers in the table\<close>

lemma set_disposer_whenMap:
  assumes "whenMap st = Some wm" and "wm t = Some d"
  shows "whenMap (set_disposer t k n st) =
     Some (wm(t \<mapsto> map (\<lambda>(k', i). if k' = Name k then (k', i\<lparr>disposer := Some n\<rparr>) else (k', i)) d))"
  using assms by (simp add: set_disposer_def)

lemma map_fst_update:
  "map fst (map (\<lambda>(k', i). if k' = k then (k', f i) else (k', i)) d) = map fst d"
  by (induction d) auto

lemma registry_Some_whenMap:
  "registry st t = Some d \<Longrightarrow> \<exists>wm. whenMap st = Some wm \<and> wm t = Some d"
  by (auto simp: registry_def split: option.splits)

lemma foldl_activate_disposers:
  assumes "whenMap st = Some wm" and "wm t = Some d"
    and "\<forall>e\<in>set d. \<forall>n. disposer (snd e) = Some n \<longrightarrow> n < length (subscriptions st)"
  shows "\<exists>wm' d'. whenMap (foldl (activate t this) st es) = Some wm' \<and> wm' t = Some d' \<and>
           map fst d' = map fst d \<and>
           (\<forall>e\<in>set (string_keyed d'). fst e \<in> fst ` set es \<longrightarrow> disposer (snd e) \<noteq> None) \<and>
           (\<forall>e\<in>set d'. \<forall>n. disposer (snd e) = Some n \<longrightarrow>
              n < length (subscriptions (foldl (activate t this) st es)))"
proof (induction es rule: rev_induct)
  case Nil
  from assms show ?case by simp
next
  case (snoc x es)
  let ?s = "foldl (activate t this) st es"
  let ?f = "\<lambda>i. i\<lparr>disposer := Some (length (subscriptions ?s))\<rparr>"
  from snoc obtain wm1 d1 where w: "whenMap ?s = Some wm1" "wm1 t = Some d1"
    and k: "map fst d1 = map fst d"
    and p: "\<forall>e\<in>set (string_keyed d1). fst e \<in> fst ` set es \<longrightarrow> disposer (snd e) \<noteq> None"
    and v: "\<forall>e\<in>set d1. \<forall>n. disposer (snd e) = Some n \<longrightarrow> n < length (subscriptions ?s)"
    by blast
  let ?d2 = "map (\<lambda>(k', i). if k' = Name (fst x) then (k', ?f i) else (k', i)) d1"
  have "whenMap (foldl (activate t this) st (es @ [x])) = Some (wm1(t \<mapsto> ?d2))"
    using set_disposer_whenMap [OF w] by (simp add: activate_whenMap)
  moreover have "(wm1(t \<mapsto> ?d2)) t = Some ?d2"
    by simp
  moreover have "map fst ?d2 = map fst d"
    using k by (simp only: map_fst_update)
  moreover have "\<forall>e\<in>set (string_keyed ?d2). fst e \<in> fst ` set (es @ [x]) \<longrightarrow>
                   disposer (snd e) \<noteq> None"
    unfolding string_keyed_update using p by (auto split: if_splits)
  moreover have "\<forall>e\<in>set ?d2. \<forall>n. disposer (snd e) = Some n \<longrightarrow>
                   n < length (subscriptions (foldl (activate t this) st (es @ [x])))"
    using v by (auto simp: activate_subscriptions split: if_splits)
  ultimately show ?case
    by blast
qed

lemma init_call_sets_disposers:
  assumes "registry st t = Some d"
    and "\<forall>e\<in>set d. \<forall>n. disposer (snd e) = Some n \<longrightarrow> n < length (subscriptions st)"
    and "props st t a = Some (InitWrapper t (Function gi))"
  shows "\<exists>st1 d1. call_method t a this args st = (Inr (), st1) \<and> registry st1 t = Some d1 \<and>
           map fst d1 = map fst d \<and> (\<forall>e\<in>set (string_keyed d1). disposer (snd e) \<noteq> None) \<and>
           (\<forall>e\<in>set d1. \<forall>n. disposer (snd e) = Some n \<longrightarrow> n < length (subscriptions st1)) \<and>
           props st1 = props st"
proof -
  from registry_Some_whenMap [OF assms(1)]
  obtain wm where w: "whenMap st = Some wm" "wm t = Some d" by blast
  let ?st0 = "st\<lparr>trace := trace st @ [Apply gi this args]\<rparr>"
  let ?st1 = "foldl (activate t this) ?st0 (for_in d)"
  have c: "call_method t a this args st = (Inr (), ?st1)"
    using w assms(3) by (rule call_init_wrapper)
  have w0: "whenMap ?st0 = Some wm" using w by simp
  have v0: "\<forall>e\<in>set d. \<forall>n. disposer (snd e) = Some n \<longrightarrow> n < length (subscriptions ?st0)"
    using assms(2) by simp
  from foldl_activate_disposers [OF w0 w(2) v0, of this "for_in d"]
  obtain wm' d' where r: "whenMap ?st1 = Some wm'" "wm' t = Some d'"
    and k: "map fst d' = map fst d"
    and p: "\<forall>e\<in>set (string_keyed d'). fst e \<in> fst ` set (for_in d) \<longrightarrow> disposer (snd e) \<noteq> None"
    and v: "\<forall>e\<in>set d'. \<forall>n. disposer (snd e) = Some n \<longrightarrow> n < length (subscriptions ?st1)"
    by blast
  have "disposer (snd e) \<noteq> None" if e: "e \<in> set (string_keyed d')" for e
  proof -
    from e have "(Name (fst e), snd e) \<in> set d'"
      by (simp add: string_keyed_mem [symmetric])
    then have "Name (fst e) \<in> set (map fst d')"
      by (metis fst_conv image_eqI list.set_map)
    then obtain i where "(Name (fst e), i) \<in> set d"
      unfolding k by auto
    then have "(fst e, i) \<in> set (for_in d)"
      by (simp add: set_for_in string_keyed_mem)
    then have "fst e \<in> fst ` set (for_in d)"
      by (metis fst_conv imageI)
    with p e show ?thesis by blast
  qed
  moreover have "registry ?st1 t = Some d'"
    using r by (simp add: registry_def)
  moreover have "props ?st1 = props st"
    by (simp add: foldl_activate_props)
  ultimately show ?thesis
    using c k v by blast
qed

lemma dispose_subscriptions:
  "length (subscriptions (dispose n st)) = length (subscriptions st)"
  "m < length (subscriptions st) \<Longrightarrow>
     sub_disposed (subscriptions (dispose n st) ! m) = (sub_disposed (subscriptions st ! m) \<or> m = n)"
  by (auto simp: dispose_def nth_list_update)

lemma foldl_deactivate_length:
  "length (subscriptions (foldl deactivate st es)) = length (subscriptions st)"
  by (induction es arbitrary: st)
     (simp_all add: deactivate_def dispose_subscriptions split: option.splits)

lemma foldl_deactivate_disposed:
  "m < length (subscriptions st) \<Longrightarrow>
     sub_disposed (subscriptions (foldl deactivate st es) ! m) =
       (sub_disposed (subscriptions st ! m) \<or> (\<exists>e\<in>set es. disposer (snd e) = Some m))"
proof (induction es arbitrary: st)
  case Nil
  show ?case by simp
next
  case (Cons e es)
  have l: "length (subscriptions (deactivate st e)) = length (subscriptions st)"
    by (simp add: deactivate_def dispose_subscriptions split: option.splits)
  have d: "sub_disposed (subscriptions (deactivate st e) ! m) =
        (sub_disposed (subscriptions st ! m) \<or> disposer (snd e) = Some m)"
    using Cons.prems by (auto simp: deactivate_def dispose_subscriptions split: option.splits)
  from Cons.prems l have "m < length (subscriptions (deactivate st e))" by simp
  from Cons.IH [OF this] d show ?case
    by auto
qed

lemma deinit_call_keeps_table:
  assumes "registry st t = Some d"
    and "props st t b = Some (DeinitWrapper t (Function gd))"
  shows "call_method t b this args st =
           (Inr (), foldl deactivate (st\<lparr>trace := trace st @ [Apply gd this args]\<rparr>) (for_in d))"
    and "whenMap (snd (call_method t b this args st)) = whenMap st"
    and "props (snd (call_method t b this args st)) = props st"
    and "length (subscriptions (snd (call_method t b this args st))) = length (subscriptions st)"
proof -
  from registry_Some_whenMap [OF assms(1)]
  obtain wm where w: "whenMap st = Some wm" "wm t = Some d" by blast
  show c: "call_method t b this args st =
           (Inr (), foldl deactivate (st\<lparr>trace := trace st @ [Apply gd this args]\<rparr>) (for_in d))"
    using w assms(2) by (simp add: call_method_def deinit_body_def)
  show "whenMap (snd (call_method t b this args st)) = whenMap st"
    and "props (snd (call_method t b this args st)) = props st"
    and "length (subscriptions (snd (call_method t b this args st))) = length (subscriptions st)"
    by (simp_all add: c foldl_deactivate_simps foldl_deactivate_length)
qed

lemma lifecycle_run_disposers:
  assumes "registry st t = Some d"
    and "\<forall>e\<in>set (string_keyed d). (disposer (snd e) \<noteq> None) = act"
    and "\<forall>e\<in>set d. \<forall>n. disposer (snd e) = Some n \<longrightarrow> n < length (subscriptions st)"
    and "props st t a = Some (InitWrapper t (Function gi))"
    and "props st t b = Some (DeinitWrapper t (Function gd))"
    and "\<forall>x\<in>set xs. (\<exists>this args. x = Call t a this args) \<or>
                     (\<exists>this args. x = Call t b this args) \<or> (\<exists>w. x = SetWorld w)"
  shows "\<exists>st' d'. run xs st = (Inr (), st') \<and> registry st' t = Some d' \<and>
           map fst d' = map fst d \<and> props st' = props st \<and>
           (\<forall>e\<in>set (string_keyed d'). (disposer (snd e) \<noteq> None) =
                          (act \<or> (\<exists>this args. Call t a this args \<in> set xs))) \<and>
           (\<forall>e\<in>set d'. \<forall>n. disposer (snd e) = Some n \<longrightarrow> n < length (subscriptions st'))"
  using assms
proof (induction xs arbitrary: st d act)
  case Nil
  then show ?case by simp
next
  case (Cons x xs)
  have ab: "a \<noteq> b" using Cons.prems(4,5) by auto
  have rest: "\<forall>x\<in>set xs. (\<exists>this args. x = Call t a this args) \<or>
                     (\<exists>this args. x = Call t b this args) \<or> (\<exists>w. x = SetWorld w)"
    using Cons.prems(6) by simp
  from Cons.prems(6) consider
      (init) this args where "x = Call t a this args"
    | (deinit) this args where "x = Call t b this args"
    | (change) w where "x = SetWorld w"
    by auto
  then show ?case
  proof cases
    case init
    from init_call_sets_disposers [OF Cons.prems(1,3,4), of this args]
    obtain st1 d1 where c: "call_method t a this args st = (Inr (), st1)"
      and r: "registry st1 t = Some d1" and k: "map fst d1 = map fst d"
      and p: "\<forall>e\<in>set (string_keyed d1). (disposer (snd e) \<noteq> None) = True"
      and v: "\<forall>e\<in>set d1. \<forall>n. disposer (snd e) = Some n \<longrightarrow> n < length (subscriptions st1)"
      and q: "props st1 = props st"
      by auto
    from Cons.IH [OF r p v _ _ rest] Cons.prems(4,5) q
    obtain st' d' where "run xs st1 = (Inr (), st')" "registry st' t = Some d'"
      "map fst d' = map fst d1" "props st' = props st1"
      "\<forall>e\<in>set (string_keyed d'). disposer (snd e) \<noteq> None"
      "\<forall>e\<in>set d'. \<forall>n. disposer (snd e) = Some n \<longrightarrow> n < length (subscriptions st')"
      by auto
    with c k q init show ?thesis
      by auto
  next
    case deinit
    from deinit_call_keeps_table [OF Cons.prems(1,5), of this args]
    obtain st1 where c: "call_method t b this args st = (Inr (), st1)"
      and w: "whenMap st1 = whenMap st" and q: "props st1 = props st"
      and l: "length (subscriptions st1) = length (subscriptions st)"
      by auto
    from w Cons.prems(1) have r: "registry st1 t = Some d"
      by (simp add: registry_def)
    from Cons.prems(3) l
    have v: "\<forall>e\<in>set d. \<forall>n. disposer (snd e) = Some n \<longrightarrow> n < length (subscriptions st1)"
      by simp
    from Cons.IH [OF r Cons.prems(2) v _ _ rest] Cons.prems(4,5) q
    obtain st' d' where "run xs st1 = (Inr (), st')" "registry st' t = Some d'"
      "map fst d' = map fst d" "props st' = props st1"
      "\<forall>e\<in>set (string_keyed d'). (disposer (snd e) \<noteq> None) =
          (act \<or> (\<exists>this args. Call t a this args \<in> set xs))"
      "\<forall>e\<in>set d'. \<forall>n. disposer (snd e) = Some n \<longrightarrow> n < length (subscriptions st')"
      by auto
    with c q deinit ab show ?thesis
      by auto
  next
    case change
    have r: "registry (set_world w st) t = Some d"
      using Cons.prems(1) by (simp add: registry_def set_world_def)
    have q: "props (set_world w st) = props st"
      by (simp add: set_world_def)
    have v: "\<forall>e\<in>set d. \<forall>n. disposer (snd e) = Some n \<longrightarrow>
               n < length (subscriptions (set_world w st))"
      using Cons.prems(3) by (simp add: set_world_def)
    from Cons.IH [OF r Cons.prems(2) v _ _ rest] Cons.prems(4,5) q
    obtain st' d' where "run xs (set_world w st) = (Inr (), st')" "registry st' t = Some d'"
      "map fst d' = map fst d" "props st' = props (set_world w st)"
      "\<forall>e\<in>set (string_keyed d'). (disposer (snd e) \<noteq> None) =
          (act \<or> (\<exists>this args. Call t a this args \<in> set xs))"
      "\<forall>e\<in>set d'. \<forall>n. disposer (snd e) = Some n \<longrightarrow> n < length (subscriptions st')"
      by auto
    with q change show ?thesis
      by auto
  qed
qed

lemma scenario_of_the_specification:
  "trace (snd (run [Call 0 ''componentDidMount'' 10 [], SetWorld True,
                    Call 0 ''componentWillUnmount'' 10 [], SetWorld False, SetWorld True,
                    Call 0 ''componentDidMount'' 10 []] decorated)) =
     [Apply 1 10 [], Apply 7 10 [Num 1, Num 2], Apply 2 10 [], Apply 1 10 [],
      Apply 7 10 [Num 1, Num 2]]"
  by code_simp

lemma decorated_registry:
  "registry decorated 0 = Some [(Name ''m'', \<lparr>predicate = logged_in, disposer = None,
      originalFunction = Some 7, parameters = Some [Num 1, Num 2]\<rparr>)]"
  by (simp add: registry_def decorated_whenMap)

subsection \<open>One active instance\<close>

lemma all_disposed_silent:
  "\<forall>s\<in>set subs. sub_disposed s \<Longrightarrow> notifications ws subs = []"
proof (induction ws)
  case Nil
  show ?case by simp
next
  case (Cons w ws)
  from Cons.prems have "map (recompute w) subs = subs"
    by (intro map_idI) (simp add: recompute_def)
  moreover from Cons.prems have "concat (map (notify w) subs) = []"
    by (simp add: notify_def)
  ultimately show ?case
    using Cons by simp
qed

lemma distinct_for_in: "distinct (map fst d) \<Longrightarrow> distinct (map fst (for_in d))"
proof -
  assume "distinct (map fst d)"
  then have "distinct (map fst (string_keyed d))"
    by (rule distinct_string_keyed)
  moreover have "mset (map fst (for_in d)) = mset (map fst (string_keyed d))"
    by (simp add: mset_for_in)
  ultimately show "distinct (map fst (for_in d))"
    by (metis mset_eq_imp_distinct_iff)
qed

lemma foldl_activate_indices:
  assumes "whenMap st = Some wm" and "wm t = Some d"
  shows "distinct (map fst es) \<Longrightarrow>
         \<exists>wm' d'. whenMap (foldl (activate t this) st es) = Some wm' \<and> wm' t = Some d' \<and>
           map fst d' = map fst d \<and>
           (\<forall>j<length es. \<forall>e\<in>set d'. fst e = Name (fst (es ! j)) \<longrightarrow>
              disposer (snd e) = Some (length (subscriptions st) + j))"
proof (induction es rule: rev_induct)
  case Nil
  from assms show ?case by simp
next
  case (snoc x es)
  let ?s = "foldl (activate t this) st es"
  from snoc.prems have dist: "distinct (map fst es)" and fresh: "fst x \<notin> fst ` set es"
    by simp_all
  from snoc.IH [OF dist] obtain wm1 d1 where w: "whenMap ?s = Some wm1" "wm1 t = Some d1"
    and k: "map fst d1 = map fst d"
    and p: "\<forall>j<length es. \<forall>e\<in>set d1. fst e = Name (fst (es ! j)) \<longrightarrow>
              disposer (snd e) = Some (length (subscriptions st) + j)"
    by blast
  have n: "length (subscriptions ?s) = length (subscriptions st) + length es"
    by (simp add: foldl_activate_subscriptions)
  let ?d2 = "map (\<lambda>(k', i). if k' = Name (fst x)
                              then (k', i\<lparr>disposer := Some (length (subscriptions ?s))\<rparr>)
                              else (k', i)) d1"
  have "whenMap (foldl (activate t this) st (es @ [x])) = Some (wm1(t \<mapsto> ?d2))"
    using set_disposer_whenMap [OF w] by (simp add: activate_whenMap)
  moreover have "(wm1(t \<mapsto> ?d2)) t = Some ?d2"
    by simp
  moreover have "map fst ?d2 = map fst d"
    using k by (simp only: map_fst_update)
  moreover have "\<forall>j<length (es @ [x]). \<forall>e\<in>set ?d2. fst e = Name (fst ((es @ [x]) ! j)) \<longrightarrow>
              disposer (snd e) = Some (length (subscriptions st) + j)"
  proof (intro allI impI ballI)
    fix j e
    assume j: "j < length (es @ [x])" and e: "e \<in> set ?d2"
      and f: "fst e = Name (fst ((es @ [x]) ! j))"
    from e obtain e1 where e1: "e1 \<in> set d1"
      and ee0: "e = (case e1 of (k', i) \<Rightarrow>
                      if k' = Name (fst x)
                      then (k', i\<lparr>disposer := Some (length (subscriptions ?s))\<rparr>)
                      else (k', i))"
      by auto
    from ee0 have ee: "e = (if fst e1 = Name (fst x)
                    then (fst e1, (snd e1)\<lparr>disposer := Some (length (subscriptions ?s))\<rparr>)
                    else e1)"
      by (simp add: case_prod_unfold)
    show "disposer (snd e) = Some (length (subscriptions st) + j)"
    proof (cases "j < length es")
      case True
      then have "es ! j \<in> set es" by simp
      with fresh have "fst (es ! j) \<noteq> fst x" by (metis imageI)
      with f True ee have "e = e1" "fst e1 = Name (fst (es ! j))"
        by (auto simp: nth_append split: if_splits)
      with p True e1 show ?thesis by simp
    next
      case False
      with j have jl: "j = length es" by simp
      with f ee have "fst e1 = Name (fst x)"
        by (auto split: if_splits)
      with ee n jl show ?thesis by simp
    qed
  qed
  ultimately show ?case
    by blast
qed

lemma foldl_set_world_simps:
  "whenMap (foldl (\<lambda>s w. set_world w s) st ws) = whenMap st"
  "props (foldl (\<lambda>s w. set_world w s) st ws) = props st"
  "length (subscriptions (foldl (\<lambda>s w. set_world w s) st ws)) = length (subscriptions st)"
  by (induction ws arbitrary: st) (simp_all add: set_world_def)

lemma foldl_set_world_disposed:
  "m < length (subscriptions st) \<Longrightarrow>
     sub_disposed (subscriptions (foldl (\<lambda>s w. set_world w s) st ws) ! m) =
       sub_disposed (subscriptions st ! m)"
proof (induction ws arbitrary: st)
  case Nil
  show ?case by simp
next
  case (Cons w ws)
  have "m < length (subscriptions (set_world w st))"
    using Cons.prems by (simp add: set_world_def)
  from Cons.IH [OF this] Cons.prems show ?case
    by (simp add: set_world_def recompute_def)
qed

lemma run_append:
  "run (xs @ ys) st =
     (case run xs st of (Inl e, st1) \<Rightarrow> (Inl e, st1) | (Inr u, st1) \<Rightarrow> run ys st1)"
proof (induction xs arbitrary: st)
  case Nil
  show ?case by simp
next
  case (Cons x xs)
  show ?case
    by (cases "step x st") (auto simp: Cons.IH split: sum.splits)
qed

lemma lone_instance_is_disposed:
  assumes "registry st t = Some d" and "distinct (map fst d)"
    and "\<forall>s\<in>set (subscriptions st). sub_disposed s"
    and "props st t a = Some (InitWrapper t (Function gi))"
    and "props st t b = Some (DeinitWrapper t (Function gd))"
  shows "\<exists>st' d'. run (Call t a this args # map SetWorld ws @ [Call t b this' args']) st = (Inr (), st') \<and>
           registry st' t = Some d' \<and> map fst d' = map fst d \<and> props st' = props st \<and>
           (\<forall>s\<in>set (subscriptions st'). sub_disposed s)"
proof -
  from registry_Some_whenMap [OF assms(1)]
  obtain wm where w: "whenMap st = Some wm" "wm t = Some d" by blast
  let ?n = "length (subscriptions st)"
  let ?st0 = "st\<lparr>trace := trace st @ [Apply gi this args]\<rparr>"
  let ?st1 = "foldl (activate t this) ?st0 (for_in d)"
  let ?st2 = "foldl (\<lambda>s w. set_world w s) ?st1 ws"
  let ?st2' = "?st2\<lparr>trace := trace ?st2 @ [Apply gd this' args']\<rparr>"
  have c1: "call_method t a this args st = (Inr (), ?st1)"
    using w assms(4) by (rule call_init_wrapper)
  have w0: "whenMap ?st0 = Some wm" using w by simp
  from foldl_activate_indices [OF w0 w(2) distinct_for_in [OF assms(2)], of this]
  obtain wm1 d1 where r: "whenMap ?st1 = Some wm1" "wm1 t = Some d1"
    and k: "map fst d1 = map fst d"
    and p: "\<forall>j<length (for_in d). \<forall>e\<in>set d1. fst e = Name (fst (for_in d ! j)) \<longrightarrow>
              disposer (snd e) = Some (?n + j)"
    by auto
  let ?st3 = "foldl deactivate ?st2' (for_in d1)"
  have w2: "whenMap ?st2 = Some wm1"
    using r by (simp add: foldl_set_world_simps)
  have p2: "props ?st2 = props st"
    by (simp add: foldl_set_world_simps foldl_activate_props)
  have c2: "call_method t b this' args' ?st2 = (Inr (), ?st3)"
    using w2 r(2) p2 assms(5) by (simp add: call_method_def deinit_body_def)
  have run: "run (Call t a this args # map SetWorld ws @ [Call t b this' args']) st = (Inr (), ?st3)"
    using c1 c2 by (simp add: run_append run_SetWorld)
  have len1: "length (subscriptions ?st1) = ?n + length (for_in d)"
    by (simp add: foldl_activate_subscriptions)
  have len2: "length (subscriptions ?st2') = ?n + length (for_in d)"
    using len1 by (simp add: foldl_set_world_simps)
  have len3: "length (subscriptions ?st3) = ?n + length (for_in d)"
    using len2 by (simp add: foldl_deactivate_length)
  have disposed: "sub_disposed (subscriptions ?st3 ! m)" if m: "m < ?n + length (for_in d)" for m
  proof (cases "m < ?n")
    case True
    then have "sub_disposed (subscriptions ?st1 ! m)"
      using assms(3) by (simp add: foldl_activate_subscriptions nth_append)
    then have "sub_disposed (subscriptions ?st2' ! m)"
      using m len1 by (simp add: foldl_set_world_disposed)
    then show ?thesis
      using m len2 by (simp add: foldl_deactivate_disposed)
  next
    case False
    define j where "j = m - ?n"
    from False m have j: "j < length (for_in d)" and mj: "m = ?n + j"
      by (simp_all add: j_def)
    from j have "for_in d ! j \<in> set (string_keyed d)"
      by (metis nth_mem set_for_in)
    then have "(Name (fst (for_in d ! j)), snd (for_in d ! j)) \<in> set d"
      by (simp add: string_keyed_mem [symmetric])
    then have "Name (fst (for_in d ! j)) \<in> set (map fst d1)"
      unfolding k by (metis fst_conv image_eqI list.set_map)
    then obtain e where e: "e \<in> set d1" "fst e = Name (fst (for_in d ! j))"
      by auto
    with p j have "disposer (snd e) = Some m"
      by (simp add: mj)
    moreover from e have "(fst (for_in d ! j), snd e) \<in> set (for_in d1)"
      by (metis prod.collapse set_for_in string_keyed_mem)
    ultimately have "\<exists>e\<in>set (for_in d1). disposer (snd e) = Some m"
      by (metis snd_conv)
    then show ?thesis
      using m len2 by (simp add: foldl_deactivate_disposed)
  qed
  have "\<forall>s\<in>set (subscriptions ?st3). sub_disposed s"
    using disposed len3 by (metis in_set_conv_nth)
  moreover have "registry ?st3 t = Some d1"
    using w2 r(2) by (simp add: registry_def foldl_deactivate_simps)
  moreover have "props ?st3 = props st"
    using p2 by (simp add: foldl_deactivate_simps)
  ultimately show ?thesis
    using run k by blast
qed

lemma disposed_state_is_silent:
  assumes "\<forall>s\<in>set (subscriptions st). sub_disposed s"
  shows "trace (snd (run (map SetWorld ws) st)) = trace st"
  using all_disposed_silent [OF assms, of ws]
  by (simp add: run_SetWorld foldl_set_world_trace)

subsection \<open>The wrappers and the decorator, in general\<close>

lemma activation_trace:
  assumes "whenMap st = Some wm" and "wm t = Some d"
    and "props st t name = Some (InitWrapper t (Function g))"
  shows "\<exists>st1. call_method t name this args st = (Inr (), st1) \<and>
           trace st1 = trace st @ Apply g this args #
             concat (map (immediate this (world st)) (for_in d))"
  using call_init_wrapper [OF assms] by (simp add: foldl_activate_trace)

lemma lifecycle_wrapped_once:
  assumes "registry st t = None" and "dec_target x = t"
    and "props st t (init_name (resolve_params (dec_arg x) (dec_rest x))) = Some oi"
    and "props st t (deinit_name (resolve_params (dec_arg x) (dec_rest x))) = Some od"
  shows "props (decorate_all (x # ds) st) t =
           (props st t)(init_name (resolve_params (dec_arg x) (dec_rest x)) \<mapsto> InitWrapper t oi,
                        deinit_name (resolve_params (dec_arg x) (dec_rest x)) \<mapsto> DeinitWrapper t od)"
proof -
  let ?s = "snd (decorate_one x st)"
  have p: "props ?s t =
           (props st t)(init_name (resolve_params (dec_arg x) (dec_rest x)) \<mapsto> InitWrapper t oi,
                        deinit_name (resolve_params (dec_arg x) (dec_rest x)) \<mapsto> DeinitWrapper t od)"
    using assms by (simp add: decorate_one_def when'_def Let_def decorate_fresh)
  have "registry ?s t \<noteq> None"
    using assms(2) by (simp add: decorate_one_def when'_def Let_def decorate_registry_target)
  then obtain d where "registry ?s t = Some d" by auto
  from decorate_all_keeps [OF this, of ds] p show ?thesis
    by (simp add: decorate_all_def)
qed

lemma failed_decoration_is_not_atomic:
  fixes st :: "'w state"
  assumes "registry st t = None" and "props st t a = Some oi" and "props st t b = None"
    and "\<not> has_property k' ([] :: 'w WhenInformation Dictionary)"
  shows "\<exists>st1 st2.
           decorate p fp a b t k descr st = (Inl NoDeinitializer, st1) \<and>
           registry st1 t = Some [] \<and>
           props st1 t a = Some (InitWrapper t oi) \<and>
           props st1 t b = None \<and>
           decorate p' fp' a' b' t k' descr' st1 = (Inr descr', st2) \<and>
           registry st2 t = Some [(k', \<lparr>predicate = p', disposer = None,
                                       originalFunction = descriptor_value descr',
                                       parameters = fp'\<rparr>)] \<and>
           props st2 = props st1"
proof -
  let ?st1 = "st\<lparr>whenMap := Some ((registry st)(t \<mapsto> [])),
                 props := (props st)(t := (props st t)(a \<mapsto> InitWrapper t oi))\<rparr>"
  have ab: "a \<noteq> b" using assms(2,3) by auto
  have first: "decorate p fp a b t k descr st = (Inl NoDeinitializer, ?st1)"
    using assms(1-3) by (simp add: decorate_fresh)
  have r1: "registry ?st1 t = Some []"
    by (simp add: registry_def)
  have np: "\<not> has_property k' ([] :: 'w WhenInformation Dictionary)"
    by (rule assms(4))
  have second: "decorate p' fp' a' b' t k' descr' ?st1 =
      (Inr descr', ?st1\<lparr>whenMap := Some ((registry ?st1)(t \<mapsto> [] @
             [(k', \<lparr>predicate = p', disposer = None, originalFunction = descriptor_value descr',
                   parameters = fp'\<rparr>)]))\<rparr>)"
    using decorate_registered [OF r1] np by simp
  show ?thesis
    using first second ab assms(3) by (simp add: registry_def)
qed

section \<open>The claims\<close>

text \<open>
  C1. After the initializer wrapper has run on an instance, the observation applies the
  bound method exactly on the false-to-true steps of the predicate's value: while the
  world runs through any sequence \<open>ws\<close>, the number of applications of the method \<open>f\<close> of
  a binding to the instance, with the recorded parameters, that the observations append
  to the trace is the number of rising edges in the predicate's values, starting from its
  value at activation. (\<open>f\<close> is the method of one binding only, its name \<open>k\<close> is a string,
  and the instance has no live observation of \<open>f\<close> from an earlier activation.) For the
  values false, true, true, false, true that number is two, as the instance after the
  theorem computes.
\<close>

theorem observation_applies_on_rising_edges:
  assumes "whenMap st = Some wm" and "wm t = Some d"
    and "props st t name = Some (InitWrapper t (Function g))"
    and "filter (\<lambda>e. originalFunction (snd e) = Some f) d = [(Name k, info)]"
    and "\<forall>s\<in>set (subscriptions st). sub_disposed s \<or> sub_function s \<noteq> Some f \<or> sub_this s \<noteq> this"
  shows "\<exists>st1 st2. call_method t name this args st = (Inr (), st1) \<and>
           run (map SetWorld ws) st1 = (Inr (), st2) \<and>
           count_list (drop (length (trace st1)) (trace st2)) (Apply f this (arguments (parameters info))) =
             rising_edges (map (predicate info this) (world st # ws))"
proof -
  let ?ev = "Apply f this (arguments (parameters info))"
  let ?st1 = "foldl (activate t this) (st\<lparr>trace := trace st @ [Apply g this args]\<rparr>) (for_in d)"
  let ?st2 = "foldl (\<lambda>s w. set_world w s) ?st1 ws"
  let ?P = "\<lambda>e. originalFunction (snd e) = Some f"
  have call: "call_method t name this args st = (Inr (), ?st1)"
    using assms(1-3) by (rule call_init_wrapper)
  have subs: "subscriptions ?st1 = subscriptions st @ map (started this (world st)) (for_in d)"
    by (simp add: foldl_activate_subscriptions)
  have old: "sum_list (map (fires ?ev ws) (subscriptions st)) = 0"
    using assms(5) by (auto simp: fires_def apply_optional_def split: option.splits)
  have zero: "\<not> ?P e \<Longrightarrow> fires ?ev ws (started this (world st) e) = 0" for e
    by (auto simp: fires_started apply_optional_def split: option.splits)
  have only: "filter ?P (string_keyed d) = [(k, info)]"
    using filter_string_keyed [of "\<lambda>i. originalFunction i = Some f" d] by (simp add: assms(4))
  have "sum_list (map (fires ?ev ws) (map (started this (world st)) (for_in d))) =
        sum_list (map (\<lambda>e. fires ?ev ws (started this (world st) e)) (string_keyed d))"
    by (simp add: o_def sum_list_for_in)
  also have "\<dots> = sum_list (map (\<lambda>e. fires ?ev ws (started this (world st) e))
                         (filter ?P (string_keyed d)))"
    by (rule sum_list_filter_zero) (rule zero)
  also have "\<dots> = fires ?ev ws (started this (world st) (k, info))"
    by (simp add: only)
  also have "\<dots> = rising_edges (map (predicate info this) (world st # ws))"
  proof -
    have "(k, info) \<in> set (filter ?P (string_keyed d))" by (simp add: only)
    then have "originalFunction info = Some f" by simp
    then show ?thesis by (simp add: fires_started apply_optional_def)
  qed
  finally have new: "sum_list (map (fires ?ev ws) (map (started this (world st)) (for_in d))) =
        rising_edges (map (predicate info this) (world st # ws))" .
  have "count_list (drop (length (trace ?st1)) (trace ?st2)) ?ev =
        count_list (notifications ws (subscriptions ?st1)) ?ev"
    by (simp add: foldl_set_world_trace)
  also have "\<dots> = rising_edges (map (predicate info this) (world st # ws))"
    unfolding count_notifications subs map_append sum_list_append old new by simp
  finally show ?thesis
    using call run_SetWorld [of ws ?st1] by blast
qed

theorem observation_applies_on_rising_edges_witness:
  "\<exists>st1 st2. call_method 0 ''componentDidMount'' 10 [] decorated = (Inr (), st1) \<and>
     run (map SetWorld [True, True, False, True]) st1 = (Inr (), st2) \<and>
     count_list (drop (length (trace st1)) (trace st2)) (Apply 7 10 [Num 1, Num 2]) = 2"
  using observation_applies_on_rising_edges [of decorated _ 0 _ "''componentDidMount''" 1 7 "''m''"
      "\<lparr>predicate = logged_in, disposer = None, originalFunction = Some 7,
        parameters = Some [Num 1, Num 2]\<rparr>" 10 "[]" "[True, True, False, True]",
      OF decorated_whenMap]
  by (simp add: decorated_props decorated_rest logged_in_def arguments_def numeral_2_eq_2)

text \<open>
  C2. The claim is that the initializer wrapper applies, once, the method of every
  registered binding whose predicate is true at that moment. A method may be named by a
  symbol (\<open>propertyName: string | symbol\<close>); \<open>decorate\<close> records its binding under the
  symbol, and \<open>for ... in\<close> never visits a symbol key. The class below has the binding of
  its symbol-named method (function 9) in its table; with the predicate true when
  instance 10 is activated, and after the predicate has become false and true again, the
  only application is that of the original initializer. (For the string-named bindings
  \<open>activation_trace\<close> gives the claim.)
\<close>

theorem symbol_named_binding_is_never_activated:
  "map_option (map (\<lambda>e. (fst e, originalFunction (snd e), parameters (snd e))))
     (registry symbol_decorated 0) = Some [(Symbol 0, Some 9, Some [Num 1, Num 2])] \<and>
   trace (snd (call_method 0 ''componentDidMount'' 10 [] (symbol_decorated\<lparr>world := True\<rparr>))) =
     [Apply 1 10 []] \<and>
   trace (snd (run [Call 0 ''componentDidMount'' 10 [], SetWorld False, SetWorld True]
                 (symbol_decorated\<lparr>world := True\<rparr>))) = [Apply 1 10 []]"
  by code_simp

text \<open>
  C3. The claim is that, for an instance whose initializer and deinitializer calls
  alternate, nothing fires after the deinitializer has run. The table of a class holds
  one disposer per binding, shared by all instances: when two instances 10 and 11 of the
  class are active together, the second activation overwrites the disposer of the first,
  both deinitializers dispose the observation of instance 11, and the observation of
  instance 10 lives on. After both instances have been deactivated, the predicate
  becoming true applies \<open>m\<close> (function 7) to instance 10. (While one instance at a time is
  active the deinitializer disposes everything and later changes are silent:
  \<open>lone_instance_is_disposed\<close>, \<open>disposed_state_is_silent\<close>,
  \<open>scenario_of_the_specification\<close>.)
\<close>

theorem deactivation_misses_the_earlier_instance:
  "trace (snd (run [Call 0 ''componentDidMount'' 10 [], Call 0 ''componentDidMount'' 11 [],
                    Call 0 ''componentWillUnmount'' 10 [], Call 0 ''componentWillUnmount'' 11 [],
                    SetWorld True] decorated)) =
     [Apply 1 10 [], Apply 1 11 [], Apply 2 10 [], Apply 2 11 [], Apply 7 10 [Num 1, Num 2]]"
  by code_simp

text \<open>
  C4, as stated, fails: after the initializer and then the deinitializer of instance 10
  have run, the deinitializer being the more recent, the disposer of the binding \<open>m\<close> is
  still the one the activation stored.
\<close>

theorem disposer_survives_deactivation_counterexample:
  "map_option (map (\<lambda>e. (fst e, disposer (snd e))))
     (registry (snd (run [Call 0 ''componentDidMount'' 10 [], Call 0 ''componentWillUnmount'' 10 []]
        decorated)) 0) = Some [(Name ''m'', Some 0)]"
  by code_simp

text \<open>
  C4, amended. For a class whose bindings have no disposer yet, at every point \<open>st'\<close> of
  any sequence of initializer calls, deinitializer calls and changes of the world, the
  disposer of every string-named binding is non-empty if and only if the initializer
  wrapper has run at least once; and a call of the deinitializer wrapper at that point
  invokes every such disposer (the observation it names is disposed afterwards) and
  leaves the table as it is, the disposers in place. (The theorem lets the calls be on
  any receivers; the amended claim is its case of one instance.)
\<close>

theorem disposer_is_set_by_activation_and_never_cleared:
  fixes st :: "'w state"
  assumes "registry st t = Some d"
    and "\<forall>e\<in>set d. disposer (snd e) = None"
    and "props st t a = Some (InitWrapper t (Function gi))"
    and "props st t b = Some (DeinitWrapper t (Function gd))"
    and "\<forall>x\<in>set xs. (\<exists>this args. x = Call t a this args) \<or>
                     (\<exists>this args. x = Call t b this args) \<or> (\<exists>w. x = SetWorld w)"
  shows "\<exists>st' d' st''.
           run xs st = (Inr (), st') \<and> registry st' t = Some d' \<and> map fst d' = map fst d \<and>
           (\<forall>e\<in>set (string_keyed d').
              (disposer (snd e) \<noteq> None) = (\<exists>this args. Call t a this args \<in> set xs)) \<and>
           call_method t b this args st' = (Inr (), st'') \<and> registry st'' t = Some d' \<and>
           (\<forall>e\<in>set (string_keyed d'). \<forall>n. disposer (snd e) = Some n \<longrightarrow>
              n < length (subscriptions st'') \<and> sub_disposed (subscriptions st'' ! n))"
proof -
  from assms(2) have none: "\<forall>e\<in>set (string_keyed d). (disposer (snd e) \<noteq> None) = False"
    by (force simp: string_keyed_mem)
  from assms(2) have valid: "\<forall>e\<in>set d. \<forall>n. disposer (snd e) = Some n \<longrightarrow>
      n < length (subscriptions st)"
    by simp
  from lifecycle_run_disposers [OF assms(1) none valid assms(3-5)]
  obtain st' d' where r: "run xs st = (Inr (), st')" "registry st' t = Some d'"
    and k: "map fst d' = map fst d" and q: "props st' = props st"
    and p: "\<forall>e\<in>set (string_keyed d').
              (disposer (snd e) \<noteq> None) = (\<exists>this args. Call t a this args \<in> set xs)"
    and v: "\<forall>e\<in>set d'. \<forall>n. disposer (snd e) = Some n \<longrightarrow> n < length (subscriptions st')"
    by auto
  from q assms(4) have b: "props st' t b = Some (DeinitWrapper t (Function gd))"
    by simp
  let ?st0 = "st'\<lparr>trace := trace st' @ [Apply gd this args]\<rparr>"
  let ?st'' = "foldl deactivate ?st0 (for_in d')"
  have c: "call_method t b this args st' = (Inr (), ?st'')"
    by (rule deinit_call_keeps_table(1) [OF r(2) b])
  have r2: "registry ?st'' t = Some d'"
    using r(2) by (simp add: registry_def foldl_deactivate_simps)
  have invoked: "sub_disposed (subscriptions (foldl deactivate s es) ! n)"
    if "n < length (subscriptions s)"
      and "sub_disposed (subscriptions s ! n) \<or> (\<exists>e\<in>set es. disposer (snd e) = Some n)"
    for s :: "'w state" and es n
    using that
  proof (induction es arbitrary: s)
    case Nil
    then show ?case by simp
  next
    case (Cons e es)
    have "length (subscriptions (deactivate s e)) = length (subscriptions s)"
      by (simp add: deactivate_def dispose_def split: option.splits)
    moreover have "sub_disposed (subscriptions (deactivate s e) ! n) =
        (sub_disposed (subscriptions s ! n) \<or> disposer (snd e) = Some n)"
      using Cons.prems(1)
      by (auto simp: deactivate_def dispose_def nth_list_update split: option.splits)
    ultimately show ?case
      using Cons.IH [of "deactivate s e"] Cons.prems by auto
  qed
  have l: "length (subscriptions ?st'') = length (subscriptions st')"
    by (simp add: foldl_deactivate_length)
  have "\<forall>e\<in>set (string_keyed d'). \<forall>n. disposer (snd e) = Some n \<longrightarrow>
          n < length (subscriptions ?st'') \<and> sub_disposed (subscriptions ?st'' ! n)"
  proof (intro ballI allI impI)
    fix e n
    assume e: "e \<in> set (string_keyed d')" and n: "disposer (snd e) = Some n"
    from e have "(Name (fst e), snd e) \<in> set d'"
      by (simp add: string_keyed_mem [symmetric])
    with v n have less: "n < length (subscriptions st')"
      by (metis snd_conv)
    from e n have "\<exists>e\<in>set (for_in d'). disposer (snd e) = Some n"
      unfolding set_for_in by blast
    with less have "sub_disposed (subscriptions ?st'' ! n)"
      by (intro invoked) simp_all
    with less l show "n < length (subscriptions ?st'') \<and> sub_disposed (subscriptions ?st'' ! n)"
      by simp
  qed
  with r k p c r2 show ?thesis
    by blast
qed

theorem disposer_is_set_by_activation_and_never_cleared_witness:
  "\<exists>st' d' st''.
     run [Call 0 ''componentDidMount'' 10 []] decorated = (Inr (), st') \<and>
     registry st' 0 = Some d' \<and> map fst d' = [Name ''m''] \<and>
     list_all (\<lambda>e. disposer (snd e) \<noteq> None) (string_keyed d') \<and>
     call_method 0 ''componentWillUnmount'' 10 [] st' = (Inr (), st'') \<and>
     registry st'' 0 = Some d' \<and>
     list_all (\<lambda>e. case disposer (snd e) of None \<Rightarrow> False
                  | Some n \<Rightarrow> n < length (subscriptions st'') \<and>
                      sub_disposed (subscriptions st'' ! n)) (string_keyed d') \<and>
     map sub_disposed (subscriptions st') = [False] \<and>
     map sub_disposed (subscriptions st'') = [True]"
proof -
  have live: "map sub_disposed (subscriptions
      (snd (run [Call 0 ''componentDidMount'' 10 []] decorated))) = [False]"
    by code_simp
  have dead: "map sub_disposed (subscriptions
      (snd (call_method 0 ''componentWillUnmount'' 10 []
         (snd (run [Call 0 ''componentDidMount'' 10 []] decorated))))) = [True]"
    by code_simp
  have none: "\<forall>e\<in>set [(Name ''m'', \<lparr>predicate = logged_in, disposer = None,
      originalFunction = Some 7, parameters = Some [Num 1, Num 2]\<rparr>)]. disposer (snd e) = None"
    by simp
  have acts: "\<forall>x\<in>set [Call 0 ''componentDidMount'' 10 []].
      (\<exists>this args. x = Call 0 ''componentDidMount'' this args) \<or>
      (\<exists>this args. x = Call 0 ''componentWillUnmount'' this args) \<or> (\<exists>w. x = SetWorld w)"
    by simp
  from disposer_is_set_by_activation_and_never_cleared
    [OF decorated_registry none decorated_props acts, of 10 "[]"]
  obtain st' d' st'' where r: "run [Call 0 ''componentDidMount'' 10 []] decorated = (Inr (), st')"
      "registry st' 0 = Some d'" "map fst d' = [Name ''m'']"
    and p: "\<forall>e\<in>set (string_keyed d'). disposer (snd e) \<noteq> None"
    and c: "call_method 0 ''componentWillUnmount'' 10 [] st' = (Inr (), st'')"
      "registry st'' 0 = Some d'"
    and g: "\<forall>e\<in>set (string_keyed d'). \<forall>n. disposer (snd e) = Some n \<longrightarrow>
              n < length (subscriptions st'') \<and> sub_disposed (subscriptions st'' ! n)"
    by auto
  from p g have invoked: "list_all (\<lambda>e. case disposer (snd e) of None \<Rightarrow> False
                  | Some n \<Rightarrow> n < length (subscriptions st'') \<and>
                      sub_disposed (subscriptions st'' ! n)) (string_keyed d')"
    by (auto simp: list_all_iff split: option.splits)
  from p have kept: "list_all (\<lambda>e. disposer (snd e) \<noteq> None) (string_keyed d')"
    by (simp add: list_all_iff)
  from live r(1) have live': "map sub_disposed (subscriptions st') = [False]"
    by simp
  from dead r(1) c(1) have dead': "map sub_disposed (subscriptions st'') = [True]"
    by simp
  show ?thesis
    by (rule exI [of _ st'], rule exI [of _ d'], rule exI [of _ st''])
       (intro conjI r c invoked kept live' dead')
qed

text \<open>
  C5. For a class that is not yet in the registry, when the class has no property under
  the configured initializer name or none under the configured deinitializer name, the
  decorator throws at decoration time: \<open>NoInitializer\<close> when the initializer is missing,
  \<open>NoDeinitializer\<close> otherwise.
\<close>

theorem missing_hook_throws:
  assumes "registry st target = None"
    and "props st target (init_name (resolve_params pop rest)) = None \<or>
         props st target (deinit_name (resolve_params pop rest)) = None"
  shows "fst (when' pop rest target propertyName descr st) =
           Inl (if props st target (init_name (resolve_params pop rest)) = None
                then NoInitializer else NoDeinitializer)"
  using assms by (auto simp: when'_def Let_def decorate_fresh split: option.splits)

theorem missing_hook_throws_witness:
  "fst (when' (IsFunction logged_in) [] 1 (Name ''m'') \<lparr>descriptor_value = Some 7\<rparr> half_component) =
     Inl NoDeinitializer"
  using missing_hook_throws [of half_component 1 "IsFunction logged_in" "[]" "Name ''m''"
      "\<lparr>descriptor_value = Some 7\<rparr>"]
  by (simp add: half_component_def registry_def resolve_params_def init_name_def deinit_name_def
      inherited_properties_def)

text \<open>
  C6. The claim is that a class gets exactly one initializer wrapper and one
  deinitializer wrapper, on its first successful decoration. \<open>decorate\<close> enters the class
  in \<open>whenMap\<close> (line 131) before it looks for the hooks, and only a class that is not
  in \<open>whenMap\<close> is checked and wrapped. For the class below, which has no deinitializer,
  the decoration of \<open>m\<close> throws after it has installed the initializer wrapper; the next
  decoration, of \<open>n\<close>, is the first that succeeds: it installs nothing and records the
  binding, and the class never gets a deinitializer wrapper. (When the first decoration
  finds both hooks, \<open>lifecycle_wrapped_once\<close> gives the claim.)
\<close>

theorem failed_decoration_installs_the_only_wrapper:
  "fst (when' (IsFunction logged_in) [] 1 (Name ''m'') \<lparr>descriptor_value = Some 7\<rparr> half_component) =
     Inl NoDeinitializer \<and>
   props half_failed 1 ''componentDidMount'' = Some (InitWrapper 1 (Function 1)) \<and>
   fst (when' (IsFunction logged_in) [] 1 (Name ''n'') \<lparr>descriptor_value = Some 8\<rparr> half_failed) =
     Inr \<lparr>descriptor_value = Some 8\<rparr> \<and>
   props half_decorated = props half_failed \<and>
   props half_decorated 1 ''componentWillUnmount'' = None \<and>
   map_option (map (\<lambda>e. (fst e, originalFunction (snd e)))) (registry half_decorated 1) =
     Some [(Name ''n'', Some 8)]"
  by (simp add: half_decorated_def half_failed_def half_component_def decoration_defs)

text \<open>
  C7. The claim is that decorating the same method name twice leaves the name with exactly
  one binding, the first. That fails for a method whose name an empty object inherits
  from \<open>Object.prototype\<close>: \<open>propertyName in dictionary\<close> is already true for the empty
  table, so neither the first nor the second decoration of \<open>toString\<close> records a binding,
  and the table of the class stays empty. (For the names that are recorded,
  \<open>redecoration_is_noop\<close> and \<open>first_decoration_registers\<close> give the idempotence.)
\<close>

theorem inherited_method_name_is_never_registered:
  "fst (when' (IsFunction logged_in) [Num 1, Num 2] 0 (Name ''toString'')
          \<lparr>descriptor_value = Some 105\<rparr> component) = Inr \<lparr>descriptor_value = Some 105\<rparr> \<and>
   registry (snd (when' (IsFunction logged_in) [Num 1, Num 2] 0 (Name ''toString'')
          \<lparr>descriptor_value = Some 105\<rparr>
          (snd (when' (IsFunction logged_in) [Num 1, Num 2] 0 (Name ''toString'')
             \<lparr>descriptor_value = Some 105\<rparr> component)))) 0 = Some []"
  by (simp add: component_def decoration_defs)

text \<open>
  C8. After the first decoration of a class whose hooks are the functions \<open>gi\<close> and \<open>gd\<close>,
  after any further decorations \<open>ds\<close> and after any actions \<open>xs\<close>, every call of the
  initializer hook applies the original initializer first, to the same receiver and with
  the same arguments, and runs the subscriptions from the state in which nothing but that
  application has happened; every call of the deinitializer hook does the same with the
  original deinitializer before the teardown. Neither call throws.
\<close>

theorem original_hook_is_called_first:
  fixes st :: "'w state"
  assumes "registry st t = None"
    and "props st t a = Some (Function gi)" and "props st t b = Some (Function gd)" and "a \<noteq> b"
    and "s = snd (run xs (decorate_all ds (snd (decorate p fp a b t k descr st))))"
  shows "call_method t a this args s = init_body t this (s\<lparr>trace := trace s @ [Apply gi this args]\<rparr>) \<and>
         call_method t b this args s = deinit_body t (s\<lparr>trace := trace s @ [Apply gd this args]\<rparr>) \<and>
         (\<exists>s' evs. call_method t a this args s = (Inr (), s') \<and>
                    trace s' = trace s @ Apply gi this args # evs) \<and>
         (\<exists>s'. call_method t b this args s = (Inr (), s') \<and>
                trace s' = trace s @ [Apply gd this args])"
proof -
  let ?st1 = "snd (decorate p fp a b t k descr st)"
  have p1: "props ?st1 t = (props st t)(a \<mapsto> InitWrapper t (Function gi), b \<mapsto> DeinitWrapper t (Function gd))"
    using assms(1-3) by (simp add: decorate_fresh)
  obtain d where d: "registry ?st1 t = Some d"
    using decorate_registry_target [of p fp a b t k descr st] by auto
  from decorate_all_keeps [OF d, of ds]
  obtain d' where d': "registry (decorate_all ds ?st1) t = Some d'"
    and p2: "props (decorate_all ds ?st1) t = props ?st1 t"
    by auto
  have ps: "props s t = (props st t)(a \<mapsto> InitWrapper t (Function gi), b \<mapsto> DeinitWrapper t (Function gd))"
    using p1 p2 by (simp add: assms(5) run_props)
  obtain wm0 where "whenMap (decorate_all ds ?st1) = Some wm0"
    using registry_whenMap_defined [OF d'] by blast
  from run_whenMap_defined [OF this, of xs]
  obtain wm where wm: "whenMap s = Some wm"
    unfolding assms(5) by blast
  have ci: "call_method t a this args s = init_body t this (s\<lparr>trace := trace s @ [Apply gi this args]\<rparr>)"
    using ps assms(4) by (simp add: call_method_def)
  have cd: "call_method t b this args s = deinit_body t (s\<lparr>trace := trace s @ [Apply gd this args]\<rparr>)"
    using ps by (simp add: call_method_def)
  from wm have wm': "whenMap (s\<lparr>trace := trace s @ [Apply gi this args]\<rparr>) = Some wm"
    and wm'': "whenMap (s\<lparr>trace := trace s @ [Apply gd this args]\<rparr>) = Some wm"
    by simp_all
  from init_body_runs [OF wm', of t this] deinit_body_runs [OF wm'', of t] ci cd
  show ?thesis by auto
qed

theorem original_hook_is_called_first_witness:
  "(\<exists>s' evs. call_method 0 ''componentDidMount'' 10 [Num 5]
        (snd (run [SetWorld True] (decorate_all [] decorated))) = (Inr (), s') \<and>
      trace s' = Apply 1 10 [Num 5] # evs) \<and>
   (\<exists>s'. call_method 0 ''componentWillUnmount'' 10 [Num 5]
        (snd (run [SetWorld True] (decorate_all [] decorated))) = (Inr (), s') \<and>
      trace s' = [Apply 2 10 [Num 5]])"
proof -
  have ne: "''componentDidMount'' \<noteq> ''componentWillUnmount''" by simp
  have s: "snd (run [SetWorld True] (decorate_all [] decorated)) =
     snd (run [SetWorld True] (decorate_all [] (snd (decorate logged_in (Some [Num 1, Num 2])
       ''componentDidMount'' ''componentWillUnmount'' 0 (Name ''m'') \<lparr>descriptor_value = Some 7\<rparr>
       component))))"
    by (simp only: decorated_decorate)
  have t: "trace (snd (run [SetWorld True] (decorate_all [] decorated))) = []"
    by (simp add: decorate_all_def set_world_def decorated_rest)
  from original_hook_is_called_first [OF component_simps ne s, of 10 "[Num 5]"]
  show ?thesis unfolding t append_Nil by blast
qed

text \<open>
  C9. The claim is that, after a decoration has thrown for a missing deinitializer, a
  later decoration of any method of the class does not throw and registers a binding.
  The first part holds (\<open>failed_decoration_is_not_atomic\<close>); the binding is missing for a
  method whose name the empty table inherits from \<open>Object.prototype\<close>, by the \<open>in\<close> test
  of line 187: after the failed decoration of the class below, the decoration of its
  method \<open>valueOf\<close> does not throw and records nothing.
\<close>

theorem inherited_name_after_failed_decoration_is_not_registered:
  "fst (when' (IsFunction logged_in) [] 1 (Name ''m'') \<lparr>descriptor_value = Some 7\<rparr> half_component) =
     Inl NoDeinitializer \<and>
   registry half_failed 1 = Some [] \<and>
   fst (when' (IsFunction logged_in) [] 1 (Name ''valueOf'') \<lparr>descriptor_value = Some 106\<rparr>
          half_failed) = Inr \<lparr>descriptor_value = Some 106\<rparr> \<and>
   registry (snd (when' (IsFunction logged_in) [] 1 (Name ''valueOf'')
          \<lparr>descriptor_value = Some 106\<rparr> half_failed)) 1 = Some []"
  by (simp add: half_failed_def half_component_def decoration_defs)

text \<open>
  C10. The lifecycle hook names of a class are fixed by its first decoration: for a class
  that is already in the registry, a decoration gives the same result and state whatever
  \<open>initFunctionName\<close> and \<open>deinitFunctionName\<close> it supplies, it does not throw, it
  leaves every property of every class as it is, and it at most appends an entry to the
  class's table.
\<close>

theorem later_lifecycle_names_ignored:
  fixes st :: "'w state"
  assumes "registry st t = Some d"
  shows "when' (IsParams (ps\<lparr>initFunctionName := a', deinitFunctionName := b'\<rparr>)) rest t k descr st =
           when' (IsParams ps) rest t k descr st \<and>
         fst (when' (IsParams ps) rest t k descr st) = Inr descr \<and>
         props (snd (when' (IsParams ps) rest t k descr st)) = props st \<and>
         registry (snd (when' (IsParams ps) rest t k descr st)) t =
           Some (if has_property k d then d
                 else d @ [(k, \<lparr>predicate = params_predicate ps, disposer = None,
                                 originalFunction = descriptor_value descr,
                                 parameters = params_parameters ps\<rparr>)])"
  using assms
  by (simp add: when'_def resolve_params_def Let_def decorate_registered registry_def)

theorem later_lifecycle_names_ignored_witness:
  "when' (IsParams \<lparr>params_predicate = logged_in, params_parameters = None,
        initFunctionName = Some ''start'', deinitFunctionName = Some ''stop''\<rparr>) [] 0 (Name ''n'')
      \<lparr>descriptor_value = Some 8\<rparr> decorated =
   when' (IsParams \<lparr>params_predicate = logged_in, params_parameters = None,
        initFunctionName = None, deinitFunctionName = None\<rparr>) [] 0 (Name ''n'')
      \<lparr>descriptor_value = Some 8\<rparr> decorated \<and>
   props (snd (when' (IsParams \<lparr>params_predicate = logged_in, params_parameters = None,
        initFunctionName = None, deinitFunctionName = None\<rparr>) [] 0 (Name ''n'')
      \<lparr>descriptor_value = Some 8\<rparr> decorated)) 0 ''start'' = None"
  using later_lifecycle_names_ignored [where st = decorated and t = 0
      and d = "[(Name ''m'', \<lparr>predicate = logged_in, disposer = None, originalFunction = Some 7,
         parameters = Some [Num 1, Num 2]\<rparr>)]"
      and ps = "\<lparr>params_predicate = logged_in, params_parameters = None,
        initFunctionName = None, deinitFunctionName = None\<rparr>"
      and a' = "Some ''start''" and b' = "Some ''stop''"
      and rest = "[]" and k = "Name ''n''" and descr = "\<lparr>descriptor_value = Some 8\<rparr>"]
  by (simp add: registry_def decorated_whenMap decorated_props_start)

end
